theory Spec2Isabelle
  imports Main "HOL-Library.Multiset"
begin

section \<open>The ZIP writer (zip\_writer.cc)\<close>

subsection \<open>Data\<close>

text \<open>
  A \<open>base::FilePath\<close> is the string it holds. A \<open>base::Time\<close> is a number; the
  null time (\<open>is_null()\<close>) is 0.
\<close>

type_synonym file_path = string

type_synonym time = nat

text \<open>
  A \<open>base::File\<close> as the writer sees it: whether the handle is valid, what
  \<open>GetInfo\<close> answers (\<open>None\<close> when it fails, otherwise the last-modified time) and the
  results of the successive calls of \<open>ReadAtCurrentPos\<close> (the number of bytes read, negative
  for an error). A regular file is finite: once the list is used up the read returns 0.
\<close>

record base_file =
  is_valid :: bool
  info_last_modified :: "time option"
  reads :: "int list"

text \<open>\<open>zip::Progress\<close>, handed to the progress callback.\<close>

record progress =
  bytes :: nat
  files :: nat
  directories :: nat

text \<open>
  The calls issued on the collaborators of the writer (the FileAccessor, the minizip
  handle, the clock and the progress callback), each with the answer it got; a run of the
  progress callback also carries the clock reading at which it happened. The history of
  these calls is kept in the writer's state, so that theorems can speak about which calls
  were issued, in which order.
\<close>

datatype event =
    OpenFiles "file_path list" "base_file list"
  | LastModified file_path time
  | OpenEntry string time bool
  | WriteData int bool
  | CloseEntry bool
  | CloseZip bool
  | NowRead time
  | ProgressRun time progress bool

text \<open>
  What the writer is built with and what it works on: the build switch that tells
  whether \<open>DCHECK\<close>s are compiled in, the platform switch \<open>OS_WIN\<close>, the
  \<open>base::FilePath\<close> operations, the FileAccessor and minizip. Every answer may depend on
  the calls issued so far.
\<close>

record env =
  DCHECK_IS_ON :: bool
  OS_WIN :: bool
  AsUTF8Unsafe :: "file_path \<Rightarrow> string"
  Append :: "file_path \<Rightarrow> file_path \<Rightarrow> file_path"
  OpenFilesForReading :: "event list \<Rightarrow> file_path list \<Rightarrow> base_file list"
  GetLastModifiedTime :: "event list \<Rightarrow> file_path \<Rightarrow> time"
  DirectoryExists :: "event list \<Rightarrow> file_path \<Rightarrow> bool"
  ZipOpenNewFileInZip :: "event list \<Rightarrow> string \<Rightarrow> time \<Rightarrow> bool"
  zipWriteInFileInZip :: "event list \<Rightarrow> int \<Rightarrow> bool"
  zipCloseFileInZip :: "event list \<Rightarrow> bool"
  zipClose :: "event list \<Rightarrow> bool"

text \<open>
  The fields of \<open>ZipWriter\<close> in zip\_writer.cc: \<open>zip_file\<close> tells whether the handle
  \<open>zip_file_\<close> is non-null; \<open>trace\<close> is the history of calls.
\<close>

record zip_writer =
  zip_file :: bool
  root_dir :: file_path
  pending_entries :: "file_path list"
  trace :: "event list"

text \<open>
  The ways in which an operation does not return: a \<open>DCHECK\<close> that fails in a build that
  has them, and the read of \<open>relative_paths[i]\<close> past the end of the vector, which the batch
  loop does in a build without them when the FileAccessor answers more files than it was
  given paths. Every other outcome is the returned boolean.
\<close>

datatype error = DCheckFailure | IndexOutOfRange

definition emit :: "event \<Rightarrow> zip_writer \<Rightarrow> zip_writer" where
  "emit e w = w\<lparr>trace := trace w @ [e]\<rparr>"

subsection \<open>Operations\<close>

text \<open>The constructor: the queue starts empty.\<close>

definition ZipWriter :: "bool \<Rightarrow> file_path \<Rightarrow> zip_writer" where
  "ZipWriter zf root =
     \<lparr>zip_file = zf, root_dir = root, pending_entries = [], trace = []\<rparr>"

text \<open>\<open>AddFileContent\<close>: the read loop, over the results of the reads.\<close>

fun AddFileContent_loop :: "env \<Rightarrow> int list \<Rightarrow> zip_writer \<Rightarrow> bool \<times> zip_writer" where
  "AddFileContent_loop env [] w = (True, w)"
| "AddFileContent_loop env (num_bytes # rest) w =
     (if num_bytes < 0 then (False, w)
      else if num_bytes = 0 then (True, w)
      else
        let ok = zipWriteInFileInZip env (trace w) num_bytes;
            w1 = emit (WriteData num_bytes ok) w
        in if \<not> ok then (False, w1) else AddFileContent_loop env rest w1)"

definition AddFileContent :: "env \<Rightarrow> file_path \<Rightarrow> base_file \<Rightarrow> zip_writer \<Rightarrow> bool \<times> zip_writer" where
  "AddFileContent env path f w = AddFileContent_loop env (reads f) w"

text \<open>
  The name \<open>OpenNewFileEntry\<close> hands to the codec: on Windows every backslash becomes a
  slash, and a directory gets a trailing slash.
\<close>

definition str_path :: "env \<Rightarrow> file_path \<Rightarrow> bool \<Rightarrow> string" where
  "str_path env path is_directory =
     (let s = AsUTF8Unsafe env path;
          s1 = (if OS_WIN env then map (\<lambda>c. if c = CHR 0x5C then CHR ''/'' else c) s else s)
      in if is_directory then s1 @ ''/'' else s1)"

text \<open>
  Modelled from the spec: \<open>base::FilePath::kSeparators\<close> (file\_path.h is not among the
  sources), the characters that separate the components of a path on the host: the slash
  everywhere and, on Windows, the backslash as well.
\<close>

definition kSeparators :: "bool \<Rightarrow> string" where
  "kSeparators os_win = (if os_win then [CHR 0x5C, CHR ''/''] else ''/'')"

definition OpenNewFileEntry ::
    "env \<Rightarrow> file_path \<Rightarrow> bool \<Rightarrow> time \<Rightarrow> zip_writer \<Rightarrow> bool \<times> zip_writer" where
  "OpenNewFileEntry env path is_directory last_modified w =
     (let s = str_path env path is_directory;
          ok = ZipOpenNewFileInZip env (trace w) s last_modified
      in (ok, emit (OpenEntry s last_modified ok) w))"

definition CloseNewFileEntry :: "env \<Rightarrow> zip_writer \<Rightarrow> bool \<times> zip_writer" where
  "CloseNewFileEntry env w =
     (let ok = zipCloseFileInZip env (trace w) in (ok, emit (CloseEntry ok) w))"

definition AddFileEntry :: "env \<Rightarrow> file_path \<Rightarrow> base_file \<Rightarrow> zip_writer \<Rightarrow> bool \<times> zip_writer" where
  "AddFileEntry env path f w =
     (case info_last_modified f of
        None \<Rightarrow> (False, w)
      | Some last_modified \<Rightarrow>
          (case OpenNewFileEntry env path False last_modified w of
             (False, w1) \<Rightarrow> (False, w1)
           | (True, w1) \<Rightarrow>
               (case AddFileContent env path f w1 of
                  (success, w2) \<Rightarrow>
                    (case CloseNewFileEntry env w2 of
                       (False, w3) \<Rightarrow> (False, w3)
                     | (True, w3) \<Rightarrow> (success, w3)))))"

definition AddDirectoryEntry ::
    "env \<Rightarrow> file_path \<Rightarrow> time \<Rightarrow> zip_writer \<Rightarrow> bool \<times> zip_writer" where
  "AddDirectoryEntry env path last_modified w =
     (case OpenNewFileEntry env path True last_modified w of
        (False, w1) \<Rightarrow> (False, w1)
      | (True, w1) \<Rightarrow> CloseNewFileEntry env w1)"

text \<open>
  The body of the \<open>for\<close> loop of \<open>FlushEntriesIfNeeded\<close> over one batch: the relative
  path, the absolute path and the opened file of each slot. \<open>Inr True\<close> means that the
  loop ran to its end.
\<close>

fun FlushBatch ::
    "env \<Rightarrow> (file_path \<times> file_path \<times> base_file) list \<Rightarrow> zip_writer \<Rightarrow> (error + bool) \<times> zip_writer" where
  "FlushBatch env [] w = (Inr True, w)"
| "FlushBatch env ((relative_path, absolute_path, f) # rest) w =
     (if is_valid f then
        (case AddFileEntry env relative_path f w of
           (False, w1) \<Rightarrow> (Inr False, w1)
         | (True, w1) \<Rightarrow> FlushBatch env rest w1)
      else
        let last_modified = GetLastModifiedTime env (trace w) absolute_path;
            w1 = emit (LastModified absolute_path last_modified) w
        in if last_modified = 0 then (Inr False, w1)
           else if DCHECK_IS_ON env \<and> \<not> DirectoryExists env (trace w1) absolute_path
           then (Inl DCheckFailure, w1)
           else
             (case AddDirectoryEntry env relative_path last_modified w1 of
                (False, w2) \<Rightarrow> (Inr False, w2)
              | (True, w2) \<Rightarrow> FlushBatch env rest w2))"

definition kMaxPendingEntriesCount :: nat where
  "kMaxPendingEntriesCount = 50"

subsection \<open>What a batch leaves untouched\<close>

text \<open>
  The flush loop below runs as long as the queue is long enough, and the queue is part of
  the state that a batch hands back. That the loop ends therefore rests on a fact about
  \<open>FlushBatch\<close>: it adds calls to the history and changes nothing else. The fact is
  proved here, together with what the later theorems need to know about the calls added.
\<close>

lemma emit_simps [simp]:
  "trace (emit e w) = trace w @ [e]"
  "pending_entries (emit e w) = pending_entries w"
  "root_dir (emit e w) = root_dir w"
  "zip_file (emit e w) = zip_file w"
  by (simp_all add: emit_def)

definition extends :: "zip_writer \<Rightarrow> event list \<Rightarrow> zip_writer \<Rightarrow> bool" where
  "extends w new w' \<longleftrightarrow> w' = w\<lparr>trace := trace w @ new\<rparr>"

lemma extends_refl [simp]: "extends w [] w"
  by (simp add: extends_def)

lemma extends_emit [simp]: "extends w [e] (emit e w)"
  by (simp add: extends_def emit_def)

lemma extends_trans: "extends w a w1 \<Longrightarrow> extends w1 b w2 \<Longrightarrow> extends w (a @ b) w2"
  by (simp add: extends_def)

lemma extends_Cons: "extends (emit e w) b w2 \<Longrightarrow> extends w (e # b) w2"
  by (simp add: extends_def emit_def)

lemma extends_fields:
  assumes "extends w new w'"
  shows "trace w' = trace w @ new" "pending_entries w' = pending_entries w"
    "root_dir w' = root_dir w" "zip_file w' = zip_file w"
  using assms by (simp_all add: extends_def)

fun is_write :: "event \<Rightarrow> bool" where
  "is_write (WriteData n ok) = True"
| "is_write _ = False"

lemma AddFileContent_loop_extends:
  "AddFileContent_loop env rs w = (r, w') \<Longrightarrow> \<exists>new. extends w new w' \<and> list_all is_write new"
proof (induction rs arbitrary: w)
  case Nil
  then have "extends w [] w'" by simp
  then show ?case by (intro exI[of _ "[]"]) simp
next
  case (Cons n rs)
  let ?ok = "zipWriteInFileInZip env (trace w) n"
  let ?w1 = "emit (WriteData n ?ok) w"
  consider "n \<le> 0" | "0 < n" "\<not> ?ok" | "0 < n" "?ok" by linarith
  then show ?case
  proof cases
    case 1
    then have "extends w [] w'" using Cons.prems by (auto split: if_splits)
    then show ?thesis by (intro exI[of _ "[]"]) simp
  next
    case 2
    then have "extends w [WriteData n ?ok] w'" using Cons.prems by (auto simp: Let_def)
    then show ?thesis by (intro exI[of _ "[WriteData n ?ok]"]) simp
  next
    case 3
    then have "AddFileContent_loop env rs ?w1 = (r, w')" using Cons.prems by (simp add: Let_def)
    then obtain new where "extends ?w1 new w'" "list_all is_write new"
      using Cons.IH by blast
    then have "extends w (WriteData n ?ok # new) w'" "list_all is_write (WriteData n ?ok # new)"
      by (simp_all add: extends_Cons)
    then show ?thesis by blast
  qed
qed

lemma OpenNewFileEntry_extends:
  "OpenNewFileEntry env path d t w = (r, w') \<Longrightarrow>
     extends w [OpenEntry (str_path env path d) t r] w'"
  by (auto simp: OpenNewFileEntry_def Let_def)

lemma CloseNewFileEntry_extends:
  "CloseNewFileEntry env w = (r, w') \<Longrightarrow> extends w [CloseEntry r] w'"
  by (auto simp: CloseNewFileEntry_def Let_def)

fun is_codec :: "event \<Rightarrow> bool" where
  "is_codec (OpenEntry s t ok) = True"
| "is_codec (WriteData n ok) = True"
| "is_codec (CloseEntry ok) = True"
| "is_codec _ = False"

fun entry_name_of :: "event \<Rightarrow> string list" where
  "entry_name_of (OpenEntry s t ok) = [s]"
| "entry_name_of _ = []"

definition entry_names :: "event list \<Rightarrow> string list" where
  "entry_names tr = concat (map entry_name_of tr)"

lemma entry_names_simps [simp]:
  "entry_names [] = []"
  "entry_names (e # tr) = entry_name_of e @ entry_names tr"
  "entry_names (tr @ tr') = entry_names tr @ entry_names tr'"
  by (simp_all add: entry_names_def)

lemma is_write_codec: "list_all is_write new \<Longrightarrow> list_all is_codec new \<and> entry_names new = []"
proof (induction new)
  case Nil
  then show ?case by simp
next
  case (Cons e new)
  then show ?case by (cases e) simp_all
qed

lemma AddFileEntry_no_info:
  "info_last_modified f = None \<Longrightarrow> AddFileEntry env path f w = (False, w)"
  by (simp add: AddFileEntry_def)

lemma AddFileEntry_not_opened:
  "info_last_modified f = Some t \<Longrightarrow> OpenNewFileEntry env path False t w = (False, w1)
    \<Longrightarrow> AddFileEntry env path f w = (False, w1)"
  by (simp add: AddFileEntry_def)

lemma AddFileEntry_opened:
  "info_last_modified f = Some t \<Longrightarrow> OpenNewFileEntry env path False t w = (True, w1)
    \<Longrightarrow> AddFileContent env path f w1 = (s, w2) \<Longrightarrow> CloseNewFileEntry env w2 = (c, w3)
    \<Longrightarrow> AddFileEntry env path f w = (s \<and> c, w3)"
  by (cases c) (simp_all add: AddFileEntry_def)

lemma AddFileEntry_extends:
  assumes "AddFileEntry env path f w = (r, w')"
  shows "\<exists>new. extends w new w' \<and> list_all is_codec new
           \<and> (r \<longrightarrow> entry_names new = [str_path env path False])"
proof (cases "info_last_modified f")
  case None
  then have "w' = w" "\<not> r" using assms AddFileEntry_no_info[of f env path w] by simp_all
  then show ?thesis by (intro exI[of _ "[]"]) simp
next
  case (Some t)
  obtain o1 w1 where o: "OpenNewFileEntry env path False t w = (o1, w1)" by fastforce
  have e1: "extends w [OpenEntry (str_path env path False) t o1] w1"
    by (rule OpenNewFileEntry_extends[OF o])
  show ?thesis
  proof (cases o1)
    case False
    then have "w' = w1" "\<not> r" using assms AddFileEntry_not_opened[OF Some, of env path w w1] o by simp_all
    then show ?thesis using e1 by (intro exI[of _ "[OpenEntry (str_path env path False) t o1]"]) simp
  next
    case True
    obtain s w2 where c: "AddFileContent env path f w1 = (s, w2)" by fastforce
    obtain cl w3 where cl: "CloseNewFileEntry env w2 = (cl, w3)" by fastforce
    obtain writes where wr: "extends w1 writes w2" "list_all is_write writes"
      using c AddFileContent_loop_extends unfolding AddFileContent_def by blast
    have "AddFileEntry env path f w = (s \<and> cl, w3)"
      using AddFileEntry_opened[OF Some _ c cl] o True by simp
    then have w3: "w3 = w'" using assms by simp
    have e3: "extends w2 [CloseEntry cl] w'" using CloseNewFileEntry_extends[OF cl] w3 by simp
    have "extends w ([OpenEntry (str_path env path False) t o1] @ writes @ [CloseEntry cl]) w'"
      by (rule extends_trans[OF e1 extends_trans[OF wr(1) e3]])
    moreover have "list_all is_codec ([OpenEntry (str_path env path False) t o1] @ writes @ [CloseEntry cl])"
      using is_write_codec[OF wr(2)] by simp
    moreover have "entry_names ([OpenEntry (str_path env path False) t o1] @ writes @ [CloseEntry cl]) = [str_path env path False]"
      using is_write_codec[OF wr(2)] by simp
    ultimately show ?thesis by blast
  qed
qed

lemma AddDirectoryEntry_extends:
  assumes "AddDirectoryEntry env path t w = (r, w')"
  shows "\<exists>new. extends w new w' \<and> list_all is_codec new
           \<and> entry_names new = [str_path env path True]"
proof -
  obtain o1 w1 where o: "OpenNewFileEntry env path True t w = (o1, w1)" by fastforce
  have e1: "extends w [OpenEntry (str_path env path True) t o1] w1"
    by (rule OpenNewFileEntry_extends[OF o])
  show ?thesis
  proof (cases o1)
    case False
    then have "w' = w1" using assms o by (simp add: AddDirectoryEntry_def)
    then show ?thesis using e1 by (intro exI[of _ "[OpenEntry (str_path env path True) t o1]"]) simp
  next
    case True
    then have "CloseNewFileEntry env w1 = (r, w')" using assms o by (simp add: AddDirectoryEntry_def)
    then have "extends w1 [CloseEntry r] w'" by (rule CloseNewFileEntry_extends)
    then have "extends w ([OpenEntry (str_path env path True) t o1] @ [CloseEntry r]) w'"
      by (rule extends_trans[OF e1])
    then show ?thesis by (intro exI[of _ "[OpenEntry (str_path env path True) t o1] @ [CloseEntry r]"]) simp
  qed
qed

fun batch_of :: "event \<Rightarrow> file_path list list" where
  "batch_of (OpenFiles ps fs) = [ps]"
| "batch_of _ = []"

fun batch_files_of :: "event \<Rightarrow> base_file list" where
  "batch_files_of (OpenFiles ps fs) = fs"
| "batch_files_of _ = []"

fun is_progress :: "event \<Rightarrow> bool" where
  "is_progress (ProgressRun t p ok) = True"
| "is_progress _ = False"

fun failed_lookup :: "event \<Rightarrow> bool" where
  "failed_lookup (LastModified p t) = (t = 0)"
| "failed_lookup _ = False"

definition batch_calls :: "event list \<Rightarrow> file_path list list" where
  "batch_calls tr = concat (map batch_of tr)"

definition batch_files :: "event list \<Rightarrow> base_file list" where
  "batch_files tr = concat (map batch_files_of tr)"

lemma batch_calls_simps [simp]:
  "batch_calls [] = []"
  "batch_calls (e # tr) = batch_of e @ batch_calls tr"
  "batch_calls (tr @ tr') = batch_calls tr @ batch_calls tr'"
  by (simp_all add: batch_calls_def)

lemma batch_files_simps [simp]:
  "batch_files [] = []"
  "batch_files (e # tr) = batch_files_of e @ batch_files tr"
  "batch_files (tr @ tr') = batch_files tr @ batch_files tr'"
  by (simp_all add: batch_files_def)

text \<open>Calls that concern one entry: the metadata query and the codec calls.\<close>

fun is_entry_call :: "event \<Rightarrow> bool" where
  "is_entry_call (OpenFiles ps fs) = False"
| "is_entry_call (NowRead t) = False"
| "is_entry_call (ProgressRun t p ok) = False"
| "is_entry_call _ = True"

lemma is_codec_entry_call: "list_all is_codec new \<Longrightarrow> list_all is_entry_call new \<and> \<not> list_ex failed_lookup new"
proof (induction new)
  case Nil
  then show ?case by simp
next
  case (Cons e new)
  then show ?case by (cases e) simp_all
qed

lemma entry_calls_no_batch:
  "list_all is_entry_call new \<Longrightarrow> batch_calls new = [] \<and> batch_files new = [] \<and> \<not> list_ex is_progress new"
proof (induction new)
  case Nil
  then show ?case by simp
next
  case (Cons e new)
  then show ?case by (cases e) simp_all
qed

definition slot_name :: "env \<Rightarrow> file_path \<times> file_path \<times> base_file \<Rightarrow> string" where
  "slot_name env = (\<lambda>(relative_path, absolute_path, f). str_path env relative_path (\<not> is_valid f))"

lemma FlushBatch_extends:
  "FlushBatch env xs w = (r, w') \<Longrightarrow>
     \<exists>new. extends w new w' \<and> list_all is_entry_call new
       \<and> (r = Inr True \<longrightarrow> entry_names new = map (slot_name env) xs)
       \<and> \<not> list_ex failed_lookup (butlast new)
       \<and> (list_ex failed_lookup new \<longrightarrow> r = Inr False)"
proof (induction xs arbitrary: w)
  case Nil
  then have "extends w [] w'" "r = Inr True" by simp_all
  then show ?case by (intro exI[of _ "[]"]) simp
next
  case (Cons x xs)
  obtain rel ab f where x: "x = (rel, ab, f)" by (cases x) auto
  show ?case
  proof (cases "is_valid f")
    case True
    obtain r1 w1 where a: "AddFileEntry env rel f w = (r1, w1)" by fastforce
    obtain n1 where n1: "extends w n1 w1" "list_all is_codec n1"
      "r1 \<longrightarrow> entry_names n1 = [str_path env rel False]"
      using AddFileEntry_extends[OF a] by blast
    note c1 = is_codec_entry_call[OF n1(2)]
    show ?thesis
    proof (cases r1)
      case False
      then have "w' = w1" "r = Inr False" using Cons.prems x True a by simp_all
      moreover have "\<not> list_ex failed_lookup (butlast n1)"
        using c1 by (metis in_set_butlastD list_ex_iff)
      ultimately show ?thesis using n1 c1 by (intro exI[of _ n1]) simp
    next
      case r1: True
      then have "FlushBatch env xs w1 = (r, w')" using Cons.prems x True a by simp
      then obtain n2 where n2: "extends w1 n2 w'" "list_all is_entry_call n2"
        "r = Inr True \<longrightarrow> entry_names n2 = map (slot_name env) xs"
        "\<not> list_ex failed_lookup (butlast n2)"
        "list_ex failed_lookup n2 \<longrightarrow> r = Inr False"
        using Cons.IH by blast
      have "extends w (n1 @ n2) w'" by (rule extends_trans[OF n1(1) n2(1)])
      moreover have "list_all is_entry_call (n1 @ n2)" using c1 n2(2) by simp
      moreover have "r = Inr True \<longrightarrow> entry_names (n1 @ n2) = map (slot_name env) (x # xs)"
        using n1(3) r1 n2(3) x True by (simp add: slot_name_def)
      moreover have "\<not> list_ex failed_lookup (butlast (n1 @ n2))"
        using c1 n2(4) by (auto simp: butlast_append list_ex_iff dest: in_set_butlastD)
      moreover have "list_ex failed_lookup (n1 @ n2) \<longrightarrow> r = Inr False"
        using c1 n2(5) by simp
      ultimately show ?thesis by blast
    qed
  next
    case False
    let ?t = "GetLastModifiedTime env (trace w) ab"
    let ?w1 = "emit (LastModified ab ?t) w"
    show ?thesis
    proof (cases "?t = 0")
      case True
      then have "w' = ?w1" "r = Inr False" using Cons.prems x False by (simp_all add: Let_def)
      then show ?thesis by (intro exI[of _ "[LastModified ab ?t]"]) simp
    next
      case t: False
      show ?thesis
      proof (cases "\<not> (DCHECK_IS_ON env \<and> \<not> DirectoryExists env (trace ?w1) ab)")
        case False
        then have "w' = ?w1" "r = Inl DCheckFailure" using Cons.prems x \<open>\<not> is_valid f\<close> t
          by (simp_all add: Let_def)
        then show ?thesis using t by (intro exI[of _ "[LastModified ab ?t]"]) simp
      next
        case True
        obtain r1 w2 where a: "AddDirectoryEntry env rel ?t ?w1 = (r1, w2)" by fastforce
        obtain n1 where n1: "extends ?w1 n1 w2" "list_all is_codec n1"
          "entry_names n1 = [str_path env rel True]"
          using AddDirectoryEntry_extends[OF a] by blast
        note c1 = is_codec_entry_call[OF n1(2)]
        have e1: "extends w (LastModified ab ?t # n1) w2" using n1(1) by (rule extends_Cons)
        have l1: "\<not> list_ex failed_lookup (LastModified ab ?t # n1)" using c1 t by simp
        show ?thesis
        proof (cases r1)
          case False
          then have "w' = w2" "r = Inr False"
            using Cons.prems x \<open>\<not> is_valid f\<close> t True a by (auto simp: Let_def split: if_splits)
          moreover have "\<not> list_ex failed_lookup (butlast (LastModified ab ?t # n1))"
            using l1 by (metis in_set_butlastD list_ex_iff)
          ultimately show ?thesis using e1 c1 l1
            by (intro exI[of _ "LastModified ab ?t # n1"]) simp
        next
          case r1: True
          then have "FlushBatch env xs w2 = (r, w')"
            using Cons.prems x \<open>\<not> is_valid f\<close> t True a by (auto simp: Let_def split: if_splits)
          then obtain n2 where n2: "extends w2 n2 w'" "list_all is_entry_call n2"
            "r = Inr True \<longrightarrow> entry_names n2 = map (slot_name env) xs"
            "\<not> list_ex failed_lookup (butlast n2)"
            "list_ex failed_lookup n2 \<longrightarrow> r = Inr False"
            using Cons.IH by blast
          let ?n = "(LastModified ab ?t # n1) @ n2"
          have "extends w ?n w'" by (rule extends_trans[OF e1 n2(1)])
          moreover have "list_all is_entry_call ?n" using c1 n2(2) by simp
          moreover have "r = Inr True \<longrightarrow> entry_names ?n = map (slot_name env) (x # xs)"
            using n1(3) n2(3) x \<open>\<not> is_valid f\<close> by (simp add: slot_name_def)
          moreover have "\<not> list_ex failed_lookup (butlast ?n)"
            using l1 n2(4) by (auto simp: butlast_append list_ex_iff dest: in_set_butlastD)
          moreover have "list_ex failed_lookup ?n \<longrightarrow> r = Inr False"
            using l1 n2(5) by simp
          ultimately show ?thesis by blast
        qed
      qed
    qed
  qed
qed

lemma FlushBatch_pending:
  "pending_entries (snd (FlushBatch env xs w)) = pending_entries w"
proof -
  obtain r w' where "FlushBatch env xs w = (r, w')" by fastforce
  then show ?thesis using FlushBatch_extends extends_fields(2) by fastforce
qed

subsection \<open>Flushing the queue\<close>

text \<open>
  The \<open>while\<close> loop of \<open>FlushEntriesIfNeeded\<close>. The \<open>for\<close> loop over a batch runs over the
  files the FileAccessor answered: \<open>zip\<close> pairs them with the paths, so fewer files than
  paths leave the last paths of the batch unwritten, and more files than paths make the
  loop read \<open>relative_paths\<close> past its end once the paths are used up. With \<open>DCHECK\<close>s
  compiled in, either mismatch aborts before the batch is written.
\<close>

function FlushEntries_loop :: "env \<Rightarrow> bool \<Rightarrow> zip_writer \<Rightarrow> (error + bool) \<times> zip_writer" where
  "FlushEntries_loop env force w =
     (if length (pending_entries w) \<ge> kMaxPendingEntriesCount \<or> (force \<and> pending_entries w \<noteq> []) then
        let entry_count = min (length (pending_entries w)) kMaxPendingEntriesCount;
            relative_paths = take entry_count (pending_entries w);
            absolute_paths = map (Append env (root_dir w)) relative_paths;
            w1 = w\<lparr>pending_entries := drop entry_count (pending_entries w)\<rparr>;
            fs = OpenFilesForReading env (trace w1) absolute_paths;
            w2 = emit (OpenFiles absolute_paths fs) w1
        in if DCHECK_IS_ON env \<and> length fs \<noteq> length relative_paths then (Inl DCheckFailure, w2)
           else
             let r = FlushBatch env (zip relative_paths (zip absolute_paths fs)) w2
             in if fst r \<noteq> Inr True then r
                else if length relative_paths < length fs then (Inl IndexOutOfRange, snd r)
                else FlushEntries_loop env force (snd r)
      else (Inr True, w))"
  by pat_completeness auto
termination
proof (relation "measure (\<lambda>(env, force, w). length (pending_entries w))")
  show "wf (measure (\<lambda>(env, force, w). length (pending_entries w)))" by simp
next
  fix env force w entry_count relative_paths absolute_paths w1 fs w2 r
  assume c: "kMaxPendingEntriesCount \<le> length (pending_entries w) \<or> force \<and> pending_entries w \<noteq> []"
    and d: "entry_count = min (length (pending_entries w)) kMaxPendingEntriesCount"
      "w1 = w\<lparr>pending_entries := drop entry_count (pending_entries w)\<rparr>"
      "w2 = emit (OpenFiles absolute_paths fs) w1"
      "r = FlushBatch env (zip relative_paths (zip absolute_paths fs)) w2"
  have "pending_entries (snd r) = drop entry_count (pending_entries w)"
    using d by (simp add: FlushBatch_pending)
  moreover have "0 < entry_count" "0 < length (pending_entries w)"
    using c d(1) by (auto simp: kMaxPendingEntriesCount_def)
  ultimately show "((env, force, snd r), (env, force, w)) \<in> measure (\<lambda>(env, force, w). length (pending_entries w))"
    by simp
qed

declare FlushEntries_loop.simps [simp del]

definition FlushEntriesIfNeeded :: "env \<Rightarrow> bool \<Rightarrow> zip_writer \<Rightarrow> (error + bool) \<times> zip_writer" where
  "FlushEntriesIfNeeded env force w =
     (if length (pending_entries w) < kMaxPendingEntriesCount \<and> \<not> force then (Inr True, w)
      else FlushEntries_loop env force w)"

definition AddEntries :: "env \<Rightarrow> file_path list \<Rightarrow> zip_writer \<Rightarrow> (error + bool) \<times> zip_writer" where
  "AddEntries env paths w =
     (if DCHECK_IS_ON env \<and> \<not> zip_file w then (Inl DCheckFailure, w)
      else FlushEntriesIfNeeded env False (w\<lparr>pending_entries := pending_entries w @ paths\<rparr>))"

text \<open>
  \<open>Close\<close> sets \<open>zip_file_\<close> to null whatever the outcome; \<open>zipClose\<close> is called only
  when the flush succeeded.
\<close>

definition Close :: "env \<Rightarrow> zip_writer \<Rightarrow> (error + bool) \<times> zip_writer" where
  "Close env w =
     (case FlushEntriesIfNeeded env True w of
        (Inl e, w1) \<Rightarrow> (Inl e, w1)
      | (Inr False, w1) \<Rightarrow> (Inr False, w1\<lparr>zip_file := False\<rparr>)
      | (Inr True, w1) \<Rightarrow>
          (let ok = zipClose env (trace w1)
           in (Inr ok, (emit (CloseZip ok) w1)\<lparr>zip_file := False\<rparr>)))"

definition WriteEntries :: "env \<Rightarrow> file_path list \<Rightarrow> zip_writer \<Rightarrow> (error + bool) \<times> zip_writer" where
  "WriteEntries env paths w =
     (case AddEntries env paths w of
        (Inr True, w1) \<Rightarrow> Close env w1
      | (r, w1) \<Rightarrow> (r, w1))"

section \<open>Extraction (zip.cc)\<close>

text \<open>
  Modelled from the spec: \<open>ZipReader\<close> (zip\_reader.h and zip\_reader.cc are not among the
  sources). The reader iterates the entries of the archive in archive order. An entry is
  what the reader reports about it: whether \<open>OpenCurrentEntryInZip\<close> succeeds on it, its
  path, whether the path is unsafe (it would leave the destination through a \<open>..\<close> segment,
  or is absolute), whether it is a directory, and whether \<open>AdvanceToNextEntry\<close> succeeds
  after it. \<open>HasMore\<close> holds as long as entries are left.
\<close>

record zip_entry =
  opens :: bool
  file_path :: file_path
  is_unsafe :: bool
  is_directory :: bool
  advances :: bool

text \<open>
  What extraction does to the outside, in order: the runs of the directory creator, of the
  writer factory and of \<open>ExtractCurrentEntry\<close> (with their results), and the message about a
  skipped file.
\<close>

datatype unzip_event =
    DirectoryCreatorRun file_path bool
  | WriterFactoryRun file_path
  | ExtractCurrentEntryRun file_path bool
  | SkippedFileLogged file_path

text \<open>
  The callbacks handed to \<open>UnzipWithFilterAndWriters\<close>, and the outcome of streaming an
  entry into its writer. The outcomes may depend on what has been done so far.
\<close>

record unzip_env =
  filter_cb :: "file_path \<Rightarrow> bool"
  directory_creator :: "unzip_event list \<Rightarrow> file_path \<Rightarrow> bool"
  ExtractCurrentEntry :: "unzip_event list \<Rightarrow> file_path \<Rightarrow> bool"

text \<open>One entry that has been opened and found safe: lines 230 to 244 of the loop body.\<close>

definition UnzipEntry ::
    "unzip_env \<Rightarrow> bool \<Rightarrow> zip_entry \<Rightarrow> unzip_event list \<Rightarrow> bool \<times> unzip_event list" where
  "UnzipEntry env log_skipped_files e tr =
     (let entry_path = file_path e in
      if filter_cb env entry_path then
        if is_directory e then
          let ok = directory_creator env tr entry_path
          in (ok, tr @ [DirectoryCreatorRun entry_path ok])
        else
          let tr1 = tr @ [WriterFactoryRun entry_path];
              ok = ExtractCurrentEntry env tr1 entry_path
          in (ok, tr1 @ [ExtractCurrentEntryRun entry_path ok])
      else if log_skipped_files then (True, tr @ [SkippedFileLogged entry_path])
      else (True, tr))"

fun UnzipEntries ::
    "unzip_env \<Rightarrow> bool \<Rightarrow> zip_entry list \<Rightarrow> unzip_event list \<Rightarrow> bool \<times> unzip_event list" where
  "UnzipEntries env log_skipped_files [] tr = (True, tr)"
| "UnzipEntries env log_skipped_files (e # rest) tr =
     (if \<not> opens e then (False, tr)
      else if is_unsafe e then (False, tr)
      else
        (case UnzipEntry env log_skipped_files e tr of
           (False, tr1) \<Rightarrow> (False, tr1)
         | (True, tr1) \<Rightarrow>
             if \<not> advances e then (False, tr1)
             else UnzipEntries env log_skipped_files rest tr1))"

text \<open>The source file is \<open>None\<close> when the reader cannot open it as an archive.\<close>

definition UnzipWithFilterAndWriters ::
    "unzip_env \<Rightarrow> zip_entry list option \<Rightarrow> bool \<Rightarrow> bool \<times> unzip_event list" where
  "UnzipWithFilterAndWriters env src_file log_skipped_files =
     (case src_file of
        None \<Rightarrow> (False, [])
      | Some entries \<Rightarrow> UnzipEntries env log_skipped_files entries [])"

section \<open>Gathering the entries (Zip in zip.cc)\<close>

text \<open>
  What \<open>Zip\<close> needs besides the collaborators above: \<open>List\<close> of the FileAccessor, which
  gives the files and the subdirectories of a directory, and \<open>BaseName\<close> of
  \<open>base::FilePath\<close>. The listing is a function of the directory: the tree does not change
  while it is traversed.
\<close>

record zip_env = env +
  List :: "file_path \<Rightarrow> file_path list \<times> file_path list"
  BaseName :: "file_path \<Rightarrow> file_path"

text \<open>
  The fields of \<open>ZipParams\<close> that the gathering reads. An unset \<open>filter_callback\<close> is
  \<open>None\<close>.
\<close>

record zip_params =
  src_dir :: file_path
  src_files :: "file_path list"
  include_hidden_files :: bool
  filter_callback :: "(file_path \<Rightarrow> bool) option"

text \<open>
  \<open>value()[0]\<close> of an empty string is the terminating NUL: an empty base name is not
  hidden.
\<close>

definition IsHiddenFile :: "zip_env \<Rightarrow> file_path \<Rightarrow> bool" where
  "IsHiddenFile env path = (case BaseName env path of [] \<Rightarrow> False | c # cs \<Rightarrow> c = CHR ''.'')"

text \<open>
The lambda \<open>exclude\<close> of \<open>Zip\<close>.
\<close>

definition exclude :: "zip_env \<Rightarrow> zip_params \<Rightarrow> file_path \<Rightarrow> bool" where
  "exclude env params path \<longleftrightarrow>
     (\<not> include_hidden_files params \<and> IsHiddenFile env path)
     \<or> (case filter_callback params of
           None \<Rightarrow> False
         | Some cb \<Rightarrow> \<not> cb (Append env (src_dir params) path))"

text \<open>
  The traversal loop of \<open>Zip\<close>, on the queue \<open>q\<close> and the list \<open>all_files\<close>: the front
  directory is listed, its files that are not excluded are recorded, its subdirectories
  that are not excluded are recorded and pushed, and the front is popped. Nothing bounds
  the tree a FileAccessor presents, so the loop need not end: the result is \<open>None\<close> when it
  does not.
\<close>

partial_function (option) Zip_bfs ::
    "zip_env \<Rightarrow> zip_params \<Rightarrow> file_path list \<Rightarrow> file_path list \<Rightarrow> file_path list option" where
  "Zip_bfs env params q all_files =
     (case q of
        [] \<Rightarrow> Some all_files
      | front # rest \<Rightarrow>
          (case List env front of
             (file_list, dir_list) \<Rightarrow>
               Zip_bfs env params
                 (rest @ filter (\<lambda>path. \<not> exclude env params path) dir_list)
                 (all_files @ filter (\<lambda>path. \<not> exclude env params path) file_list
                            @ filter (\<lambda>path. \<not> exclude env params path) dir_list)))"

text \<open>
  The first part of \<open>Zip\<close>: the list of paths \<open>files_to_add\<close> that it hands to
  \<open>WriteEntries\<close>. The queue starts with the empty path, the root.
\<close>

definition Zip_files_to_add :: "zip_env \<Rightarrow> zip_params \<Rightarrow> file_path list option" where
  "Zip_files_to_add env params =
     (if src_files params = [] then Zip_bfs env params [[]] [] else Some (src_files params))"

text \<open>
The files and the subdirectories of a directory that pass the exclusion test.
\<close>

definition kept_files :: "zip_env \<Rightarrow> zip_params \<Rightarrow> file_path \<Rightarrow> file_path list" where
  "kept_files env params dir = filter (\<lambda>path. \<not> exclude env params path) (fst (List env dir))"

definition kept_dirs :: "zip_env \<Rightarrow> zip_params \<Rightarrow> file_path \<Rightarrow> file_path list" where
  "kept_dirs env params dir = filter (\<lambda>path. \<not> exclude env params path) (snd (List env dir))"

section \<open>Progress reporting (zip\_writer.h)\<close>

text \<open>
  zip\_writer.h declares a writer that reports its progress: the members below,
  \<open>SetProgressCallback\<close> with its body, and \<open>ShouldContinue\<close> without one. The
  zip\_writer.cc that belongs to this header is not among the sources (the one modelled
  above has no progress member), so what the writer does with the callback is taken from
  the spec, and added to the operations of zip\_writer.cc above.

  The members of the header: the counters, the optional callback, the period, and the
  time at which the next report is due.
\<close>

record reporter =
  progress :: progress
  progress_callback :: "(progress \<Rightarrow> bool) option"
  progress_period :: time
  next_progress_report_time :: time

text \<open>\<open>SetProgressCallback\<close>, as the header defines it.\<close>

definition SetProgressCallback :: "(progress \<Rightarrow> bool) \<Rightarrow> time \<Rightarrow> reporter \<Rightarrow> reporter" where
  "SetProgressCallback callback period rep =
     rep\<lparr>progress_callback := Some callback, progress_period := period\<rparr>"

text \<open>
  Modelled from the spec: the body of \<open>ShouldContinue\<close>, which the header declares
  ("Regularly called during processing to check whether zipping should continue or should
  be cancelled"). Spec 4.1, step 4: "invoke the periodic callback when the configured
  period has elapsed since the last report". With a callback set, the clock
  (\<open>base::TimeTicks::Now\<close>, the parameter \<open>Now\<close>, whose reading may depend on the calls
  issued so far) is read; a report is due from \<open>next_progress_report_time\<close> on; a run of the
  callback moves that time one period past the clock reading, and its answer tells whether
  to continue.
\<close>

definition ShouldContinue ::
    "(event list \<Rightarrow> time) \<Rightarrow> reporter \<Rightarrow> zip_writer \<Rightarrow> bool \<times> reporter \<times> zip_writer" where
  "ShouldContinue Now rep w =
     (case progress_callback rep of
        None \<Rightarrow> (True, rep, w)
      | Some callback \<Rightarrow>
          let now = Now (trace w);
              w1 = emit (NowRead now) w
          in if now < next_progress_report_time rep then (True, rep, w1)
             else
               let ok = callback (progress rep)
               in (ok, rep\<lparr>next_progress_report_time := now + progress_period rep\<rparr>,
                   emit (ProgressRun now (progress rep) ok) w1))"

text \<open>
  Modelled from the spec: the final report, missing with zip\_writer.cc. Spec 6: "plus
  once unconditionally at completion": one run of the callback, whatever the clock reads.
  The operation is over, so the answer of the callback has nothing left to cancel.
\<close>

definition FinalReport :: "(event list \<Rightarrow> time) \<Rightarrow> reporter \<Rightarrow> zip_writer \<Rightarrow> zip_writer" where
  "FinalReport Now rep w =
     (case progress_callback rep of
        None \<Rightarrow> w
      | Some callback \<Rightarrow>
          emit (ProgressRun (Now (trace w)) (progress rep) (callback (progress rep))) w)"

text \<open>
  Modelled from the spec: the update of the counters, missing with zip\_writer.cc.
  Spec 4.1, step 4: "Update Progress counters (bytes per chunk, file/directory counts)":
  the bytes of every chunk written, and one file or one directory for every entry closed.
  An entry is a directory when its name ends with the separator. The flag tells whether
  the entry that is open is a directory.
\<close>

fun count_progress :: "bool \<Rightarrow> event list \<Rightarrow> progress \<Rightarrow> progress" where
  "count_progress d [] p = p"
| "count_progress d (OpenEntry s t ok # es) p =
     count_progress (s \<noteq> [] \<and> last s = CHR ''/'') es p"
| "count_progress d (WriteData n ok # es) p =
     count_progress d es (if ok then p\<lparr>bytes := bytes p + nat n\<rparr> else p)"
| "count_progress d (CloseEntry ok # es) p =
     count_progress d es
       (if \<not> ok then p
        else if d then p\<lparr>directories := directories p + 1\<rparr>
        else p\<lparr>files := files p + 1\<rparr>)"
| "count_progress d (e # es) p = count_progress d es p"

lemma ShouldContinue_pending [simp]:
  "pending_entries (snd (snd (ShouldContinue Now rep w))) = pending_entries w"
  by (simp add: ShouldContinue_def emit_def Let_def split: option.splits)

text \<open>
  Modelled from the spec: the flush of the reporting writer, missing with zip\_writer.cc.
  It is the loop of \<open>FlushEntriesIfNeeded\<close> above, batch by batch, with step 4 of spec 4.1
  after the slots of a batch are written: the counters are updated by what the batch wrote,
  and \<open>ShouldContinue\<close> makes the periodic report when it is due. "Any failure during flush
  aborts immediately": a batch that fails is followed by no periodic report. A callback
  that answers not to continue ends the flush with failure.
\<close>

function ReportedFlush ::
    "(event list \<Rightarrow> time) \<Rightarrow> env \<Rightarrow> bool \<Rightarrow> reporter \<Rightarrow> zip_writer
      \<Rightarrow> (error + bool) \<times> reporter \<times> zip_writer" where
  "ReportedFlush Now env force rep w =
     (if length (pending_entries w) \<ge> kMaxPendingEntriesCount \<or> (force \<and> pending_entries w \<noteq> []) then
        let entry_count = min (length (pending_entries w)) kMaxPendingEntriesCount;
            relative_paths = take entry_count (pending_entries w);
            absolute_paths = map (Append env (root_dir w)) relative_paths;
            w1 = w\<lparr>pending_entries := drop entry_count (pending_entries w)\<rparr>;
            fs = OpenFilesForReading env (trace w1) absolute_paths;
            w2 = emit (OpenFiles absolute_paths fs) w1
        in if DCHECK_IS_ON env \<and> length fs \<noteq> length relative_paths then (Inl DCheckFailure, rep, w2)
           else
             let r = FlushBatch env (zip relative_paths (zip absolute_paths fs)) w2;
                 rep1 = rep\<lparr>progress :=
                          count_progress False (drop (length (trace w2)) (trace (snd r))) (progress rep)\<rparr>
             in if fst r \<noteq> Inr True then (fst r, rep1, snd r)
                else if length relative_paths < length fs then (Inl IndexOutOfRange, rep1, snd r)
                else
                  let c = ShouldContinue Now rep1 (snd r)
                  in if \<not> fst c then (Inr False, snd c)
                     else ReportedFlush Now env force (fst (snd c)) (snd (snd c))
      else (Inr True, rep, w))"
  by pat_completeness auto
termination
proof (relation "measure (\<lambda>(Now, env, force, rep, w). length (pending_entries w))")
  show "wf (measure (\<lambda>(Now, env, force, rep, w). length (pending_entries w)))" by simp
next
  fix Now :: "event list \<Rightarrow> time" and env force and rep :: reporter
    and w entry_count relative_paths absolute_paths w1 fs w2 r
    and rep1 :: reporter and c :: "bool \<times> reporter \<times> zip_writer"
  assume c: "kMaxPendingEntriesCount \<le> length (pending_entries w) \<or> force \<and> pending_entries w \<noteq> []"
    and d: "entry_count = min (length (pending_entries w)) kMaxPendingEntriesCount"
      "w1 = w\<lparr>pending_entries := drop entry_count (pending_entries w)\<rparr>"
      "w2 = emit (OpenFiles absolute_paths fs) w1"
      "r = FlushBatch env (zip relative_paths (zip absolute_paths fs)) w2"
      "c = ShouldContinue Now rep1 (snd r)"
  have "pending_entries (snd (snd c)) = drop entry_count (pending_entries w)"
    using d by (simp add: FlushBatch_pending)
  moreover have "0 < entry_count" "0 < length (pending_entries w)"
    using c d(1) by (auto simp: kMaxPendingEntriesCount_def)
  ultimately show "((Now, env, force, fst (snd c), snd (snd c)), (Now, env, force, rep, w))
       \<in> measure (\<lambda>(Now, env, force, rep, w). length (pending_entries w))"
    by (simp add: case_prod_beta)
qed

text \<open>
  Modelled from the spec: \<open>FlushEntriesIfNeeded\<close> of the reporting writer, with the final
  report. Spec 4.1, step 4: "always invoke a final callback once flushing completes
  (forced case) or the process terminates": after a forced flush, and after a flush that
  fails (the operation ends there). A failed \<open>DCHECK\<close> aborts with no report.
\<close>

definition ReportedFlushIfNeeded ::
    "(event list \<Rightarrow> time) \<Rightarrow> env \<Rightarrow> bool \<Rightarrow> reporter \<Rightarrow> zip_writer
      \<Rightarrow> (error + bool) \<times> reporter \<times> zip_writer" where
  "ReportedFlushIfNeeded Now env force rep w =
     (if length (pending_entries w) < kMaxPendingEntriesCount \<and> \<not> force then (Inr True, rep, w)
      else
        (case ReportedFlush Now env force rep w of
           (Inl e, rep1, w1) \<Rightarrow> (Inl e, rep1, w1)
         | (Inr ok, rep1, w1) \<Rightarrow>
             if force \<or> \<not> ok then (Inr ok, rep1, FinalReport Now rep1 w1)
             else (Inr ok, rep1, w1)))"

text \<open>
  Modelled from the spec: \<open>AddEntries\<close>, \<open>Close\<close> and \<open>WriteEntries\<close> of the reporting
  writer: those of zip\_writer.cc above, over the reporting flush.
\<close>

definition ReportedAddEntries ::
    "(event list \<Rightarrow> time) \<Rightarrow> env \<Rightarrow> file_path list \<Rightarrow> reporter \<Rightarrow> zip_writer
      \<Rightarrow> (error + bool) \<times> reporter \<times> zip_writer" where
  "ReportedAddEntries Now env paths rep w =
     (if DCHECK_IS_ON env \<and> \<not> zip_file w then (Inl DCheckFailure, rep, w)
      else ReportedFlushIfNeeded Now env False rep (w\<lparr>pending_entries := pending_entries w @ paths\<rparr>))"

definition ReportedClose ::
    "(event list \<Rightarrow> time) \<Rightarrow> env \<Rightarrow> reporter \<Rightarrow> zip_writer
      \<Rightarrow> (error + bool) \<times> reporter \<times> zip_writer" where
  "ReportedClose Now env rep w =
     (case ReportedFlushIfNeeded Now env True rep w of
        (Inl e, rep1, w1) \<Rightarrow> (Inl e, rep1, w1)
      | (Inr False, rep1, w1) \<Rightarrow> (Inr False, rep1, w1\<lparr>zip_file := False\<rparr>)
      | (Inr True, rep1, w1) \<Rightarrow>
          (let ok = zipClose env (trace w1)
           in (Inr ok, rep1, (emit (CloseZip ok) w1)\<lparr>zip_file := False\<rparr>)))"

definition ReportedWriteEntries ::
    "(event list \<Rightarrow> time) \<Rightarrow> env \<Rightarrow> file_path list \<Rightarrow> reporter \<Rightarrow> zip_writer
      \<Rightarrow> (error + bool) \<times> reporter \<times> zip_writer" where
  "ReportedWriteEntries Now env paths rep w =
     (case ReportedAddEntries Now env paths rep w of
        (Inr True, rep1, w1) \<Rightarrow> ReportedClose Now env rep1 w1
      | (r, rep1, w1) \<Rightarrow> (r, rep1, w1))"

text \<open>
  The clock readings at which the callback ran. A list of readings keeps the period when
  the first is not before the time the first report is due, and each later one is at least
  one period after the one before.
\<close>

fun report_time_of :: "event \<Rightarrow> time list" where
  "report_time_of (ProgressRun t p a) = [t]"
| "report_time_of _ = []"

definition report_times :: "event list \<Rightarrow> time list" where
  "report_times tr = concat (map report_time_of tr)"

text \<open>The readings of the clock.\<close>

fun is_now :: "event \<Rightarrow> bool" where
  "is_now (NowRead t) = True"
| "is_now _ = False"

text \<open>
  Whether a list of readings keeps the period, and the time the next report is due after
  reports at these readings.
\<close>

fun spaced :: "time \<Rightarrow> time \<Rightarrow> time list \<Rightarrow> bool" where
  "spaced period due [] = True"
| "spaced period due (t # ts) = (due \<le> t \<and> spaced period (t + period) ts)"

fun next_after :: "time \<Rightarrow> time \<Rightarrow> time list \<Rightarrow> time" where
  "next_after period due [] = due"
| "next_after period due (t # ts) = next_after period (t + period) ts"

text \<open>
  The periodic reports are made when they are due: a clock reading that is not before the
  time the next report is due is followed at once by a run of the callback, at that
  reading. The time the next report is due follows from the runs so far.
\<close>

fun runs_at :: "time \<Rightarrow> event list \<Rightarrow> bool" where
  "runs_at t (ProgressRun t' p a # es) = (t' = t)"
| "runs_at t es = False"

fun due_runs :: "time \<Rightarrow> time \<Rightarrow> event list \<Rightarrow> bool" where
  "due_runs period due [] = True"
| "due_runs period due (e # es) =
     ((case e of NowRead t \<Rightarrow> t < due \<or> runs_at t es | _ \<Rightarrow> True)
      \<and> due_runs period (next_after period due (report_time_of e)) es)"

section \<open>A small world to run the model in\<close>

text \<open>
  A small world to run the writer in: below the root \<open>/r\<close>, the path \<open>d\<close> is a directory
  (it does not open, its last-modified time is 7), \<open>x\<close> is missing (it does not open and
  has no last-modified time), \<open>e\<close> is a file whose second read fails, and every other path
  is a file of five bytes, read in two chunks. The codec accepts every call.
\<close>

definition demo_file :: "file_path \<Rightarrow> base_file" where
  "demo_file p =
     (if p = ''/r/d'' \<or> p = ''/r/x'' then \<lparr>is_valid = False, info_last_modified = None, reads = []\<rparr>
      else if p = ''/r/e'' then \<lparr>is_valid = True, info_last_modified = Some 5, reads = [3, - 1]\<rparr>
      else \<lparr>is_valid = True, info_last_modified = Some 5, reads = [3, 2]\<rparr>)"

definition demo_env :: env where
  "demo_env =
     \<lparr>DCHECK_IS_ON = False, OS_WIN = False, AsUTF8Unsafe = (\<lambda>p. p), Append = (\<lambda>a b. a @ ''/'' @ b),
      OpenFilesForReading = (\<lambda>tr ps. map demo_file ps),
      GetLastModifiedTime = (\<lambda>tr p. if p = ''/r/d'' then 7 else 0),
      DirectoryExists = (\<lambda>tr p. p = ''/r/d''),
      ZipOpenNewFileInZip = (\<lambda>tr s t. True),
      zipWriteInFileInZip = (\<lambda>tr n. True),
      zipCloseFileInZip = (\<lambda>tr. True),
      zipClose = (\<lambda>tr. True)\<rparr>"

text \<open>The same world with a FileAccessor that answers one file, whatever it is asked.\<close>

definition demo_short_env :: env where
  "demo_short_env = demo_env\<lparr>OpenFilesForReading := (\<lambda>tr ps. map demo_file (take 1 ps))\<rparr>"

definition demo_writer :: zip_writer where
  "demo_writer = ZipWriter True ''/r''"

definition demo_queue :: "file_path list \<Rightarrow> zip_writer" where
  "demo_queue q = demo_writer\<lparr>pending_entries := q\<rparr>"

text \<open>
  For extraction: a filter that rejects \<open>skip.txt\<close>, callbacks that succeed, and entries
  that the reader opens and advances past.
\<close>

definition demo_unzip_env :: unzip_env where
  "demo_unzip_env =
     \<lparr>filter_cb = (\<lambda>p. p \<noteq> ''skip.txt''),
      directory_creator = (\<lambda>tr p. True),
      ExtractCurrentEntry = (\<lambda>tr p. True)\<rparr>"

definition demo_entry :: "file_path \<Rightarrow> bool \<Rightarrow> bool \<Rightarrow> zip_entry" where
  "demo_entry p unsafe dir =
     \<lparr>opens = True, file_path = p, is_unsafe = unsafe, is_directory = dir, advances = True\<rparr>"

text \<open>
  For gathering: a root with a file, a hidden file, a directory \<open>sub\<close> (holding a file and
  a directory \<open>deep\<close> with a hidden and a plain file) and a hidden directory.
\<close>

definition demo_List :: "file_path \<Rightarrow> file_path list \<times> file_path list" where
  "demo_List dir =
     (if dir = [] then ([''a.txt'', ''.b.txt''], [''sub'', ''.git''])
      else if dir = ''sub'' then ([''sub/c.txt''], [''sub/deep''])
      else if dir = ''sub/deep'' then ([''sub/deep/.x'', ''sub/deep/y''], [])
      else if dir = ''.git'' then ([''.git/config''], [])
      else ([], []))"

definition demo_zip_env :: zip_env where
  "demo_zip_env =
     \<lparr>DCHECK_IS_ON = False, OS_WIN = False, AsUTF8Unsafe = (\<lambda>p. p), Append = (\<lambda>a b. a @ ''/'' @ b),
      OpenFilesForReading = (\<lambda>tr ps. map demo_file ps),
      GetLastModifiedTime = (\<lambda>tr p. if p = ''/r/d'' then 7 else 0),
      DirectoryExists = (\<lambda>tr p. p = ''/r/d''),
      ZipOpenNewFileInZip = (\<lambda>tr s t. True),
      zipWriteInFileInZip = (\<lambda>tr n. True),
      zipCloseFileInZip = (\<lambda>tr. True),
      zipClose = (\<lambda>tr. True),
      List = demo_List,
      BaseName = (\<lambda>p. rev (takeWhile (\<lambda>c. c \<noteq> CHR ''/'') (rev p)))\<rparr>"

definition demo_params :: zip_params where
  "demo_params =
     \<lparr>src_dir = ''/r'', src_files = [], include_hidden_files = False, filter_callback = None\<rparr>"

text \<open>
  For progress reporting: no callback set, counters at zero, a first report due at once;
  and a clock that ticks once for every call issued.
\<close>

definition demo_reporter :: reporter where
  "demo_reporter =
     \<lparr>progress = \<lparr>bytes = 0, files = 0, directories = 0\<rparr>, progress_callback = None,
      progress_period = 0, next_progress_report_time = 0\<rparr>"

definition demo_clock :: "event list \<Rightarrow> time" where
  "demo_clock tr = length tr"

section \<open>Facts about the writer\<close>

subsection \<open>The flush loop\<close>

lemma FlushEntries_loop_done:
  "length (pending_entries w) < kMaxPendingEntriesCount \<Longrightarrow> (force \<Longrightarrow> pending_entries w = [])
     \<Longrightarrow> FlushEntries_loop env force w = (Inr True, w)"
  by (subst FlushEntries_loop.simps) auto

lemma FlushEntriesIfNeeded_loop:
  "FlushEntriesIfNeeded env force w = FlushEntries_loop env force w"
  by (simp add: FlushEntriesIfNeeded_def FlushEntries_loop_done)

lemma FlushEntries_loop_step:
  assumes "kMaxPendingEntriesCount \<le> length (pending_entries w) \<or> (force \<and> pending_entries w \<noteq> [])"
    and "c = min (length (pending_entries w)) kMaxPendingEntriesCount"
    and "ab = map (Append env (root_dir w)) (take c (pending_entries w))"
    and "fs = OpenFilesForReading env (trace w) ab"
    and "w2 = w\<lparr>pending_entries := drop c (pending_entries w), trace := trace w @ [OpenFiles ab fs]\<rparr>"
    and "b = FlushBatch env (zip (take c (pending_entries w)) (zip ab fs)) w2"
  shows "FlushEntries_loop env force w =
           (if DCHECK_IS_ON env \<and> length fs \<noteq> c then (Inl DCheckFailure, w2)
            else if fst b \<noteq> Inr True then b
            else if c < length fs then (Inl IndexOutOfRange, snd b)
            else FlushEntries_loop env force (snd b))"
proof -
  have "length (take c (pending_entries w)) = c" using assms(2) by simp
  then show ?thesis
    using assms by (subst FlushEntries_loop.simps) (simp add: Let_def emit_def)
qed

lemma FlushEntries_loop_unfold:
  "kMaxPendingEntriesCount \<le> length (pending_entries w) \<or> (force \<and> pending_entries w \<noteq> []) \<Longrightarrow>
   FlushEntries_loop env force w =
       (let entry_count = min (length (pending_entries w)) kMaxPendingEntriesCount;
            relative_paths = take entry_count (pending_entries w);
            absolute_paths = map (Append env (root_dir w)) relative_paths;
            w1 = w\<lparr>pending_entries := drop entry_count (pending_entries w)\<rparr>;
            fs = OpenFilesForReading env (trace w1) absolute_paths;
            w2 = emit (OpenFiles absolute_paths fs) w1
        in if DCHECK_IS_ON env \<and> length fs \<noteq> length relative_paths then (Inl DCheckFailure, w2)
           else
             let r = FlushBatch env (zip relative_paths (zip absolute_paths fs)) w2
             in if fst r \<noteq> Inr True then r
                else if length relative_paths < length fs then (Inl IndexOutOfRange, snd r)
                else FlushEntries_loop env force (snd r))"
  by (subst FlushEntries_loop.simps) (simp only: if_True)

text \<open>
  An \<open>OpenFilesForReading\<close> call whose answer has one file for each path. A build with
  \<open>DCHECK\<close>s asserts it of every call.
\<close>

fun slots_match :: "event \<Rightarrow> bool" where
  "slots_match (OpenFiles ps fs) = (length fs = length ps)"
| "slots_match _ = True"

lemma entry_calls_slots_match: "list_all is_entry_call new \<Longrightarrow> list_all slots_match new"
proof (induction new)
  case Nil
  then show ?case by simp
next
  case (Cons e new)
  then show ?case by (cases e) simp_all
qed

text \<open>
  The names the codec is expected to receive for a list of paths, given the files that
  the FileAccessor opened for them: a path whose file is invalid is taken for a directory.
\<close>

definition expected_names :: "env \<Rightarrow> file_path list \<Rightarrow> base_file list \<Rightarrow> string list" where
  "expected_names env paths fs = map (\<lambda>(p, f). str_path env p (\<not> is_valid f)) (zip paths fs)"

lemma slot_names_expected:
  "length rel = length ab \<Longrightarrow> length ab = length fs \<Longrightarrow>
     map (slot_name env) (zip rel (zip ab fs)) = expected_names env rel fs"
  by (induction rel ab fs rule: list_induct3) (simp_all add: slot_name_def expected_names_def)

lemma expected_names_append:
  "length a = length fa \<Longrightarrow>
     expected_names env (a @ b) (fa @ fb) = expected_names env a fa @ expected_names env b fb"
  by (simp add: expected_names_def)

lemma no_ex_butlast: "\<not> list_ex P xs \<Longrightarrow> \<not> list_ex P (butlast xs)"
  by (metis in_set_butlastD list_ex_iff)

lemma no_ex_butlast_append:
  "\<not> list_ex P a \<Longrightarrow> \<not> list_ex P (butlast b) \<Longrightarrow> \<not> list_ex P (butlast (a @ b))"
  by (simp add: butlast_append no_ex_butlast)

text \<open>
  The first turn of the loop: one batch is taken off the queue, handed to the FileAccessor
  and written; then the loop either stops without success or goes on with the state that
  the batch left.
\<close>

lemma FlushEntries_loop_first:
  assumes "kMaxPendingEntriesCount \<le> length (pending_entries w) \<or> (force \<and> pending_entries w \<noteq> [])"
    and "FlushEntries_loop env force w = (r, w')"
    and "c = min (length (pending_entries w)) kMaxPendingEntriesCount"
    and "ab = map (Append env (root_dir w)) (take c (pending_entries w))"
  shows "\<exists>fs nb w3.
      w3 = w\<lparr>pending_entries := drop c (pending_entries w), trace := trace w @ OpenFiles ab fs # nb\<rparr>
      \<and> fs = OpenFilesForReading env (trace w) ab
      \<and> list_all is_entry_call nb
      \<and> \<not> list_ex failed_lookup (butlast nb)
      \<and> (r \<noteq> Inr True \<and> w' = w3 \<and> (list_ex failed_lookup nb \<longrightarrow> r = Inr False)
         \<or> FlushEntries_loop env force w3 = (r, w') \<and> \<not> list_ex failed_lookup nb
           \<and> length fs \<le> c \<and> (DCHECK_IS_ON env \<longrightarrow> length fs = c)
           \<and> entry_names nb = map (slot_name env) (zip (take c (pending_entries w)) (zip ab fs)))"
proof -
  let ?p = "pending_entries w"
  define fs where "fs = OpenFilesForReading env (trace w) ab"
  define w2 where "w2 = w\<lparr>pending_entries := drop c ?p, trace := trace w @ [OpenFiles ab fs]\<rparr>"
  define b where "b = FlushBatch env (zip (take c ?p) (zip ab fs)) w2"
  note step = FlushEntries_loop_step[OF assms(1) assms(3) assms(4) fs_def w2_def b_def]
  obtain r1 w3 where b: "b = (r1, w3)" by fastforce
  obtain nb where nb: "extends w2 nb w3" "list_all is_entry_call nb"
    "r1 = Inr True \<longrightarrow> entry_names nb = map (slot_name env) (zip (take c ?p) (zip ab fs))"
    "\<not> list_ex failed_lookup (butlast nb)" "list_ex failed_lookup nb \<longrightarrow> r1 = Inr False"
    using FlushBatch_extends b unfolding b_def by blast
  have w3: "w3 = w\<lparr>pending_entries := drop c ?p, trace := trace w @ OpenFiles ab fs # nb\<rparr>"
    using nb(1) by (simp add: extends_def w2_def)
  consider (check) "DCHECK_IS_ON env \<and> length fs \<noteq> c"
    | (failed) "\<not> (DCHECK_IS_ON env \<and> length fs \<noteq> c)" "r1 \<noteq> Inr True"
    | (range) "\<not> (DCHECK_IS_ON env \<and> length fs \<noteq> c)" "r1 = Inr True" "c < length fs"
    | (go) "\<not> (DCHECK_IS_ON env \<and> length fs \<noteq> c)" "r1 = Inr True" "length fs \<le> c"
    by linarith
  then show ?thesis
  proof cases
    case check
    then have "w' = w2" "r = Inl DCheckFailure" using step assms(2) by simp_all
    then have "w' = w\<lparr>pending_entries := drop c ?p, trace := trace w @ OpenFiles ab fs # []\<rparr>"
      "r \<noteq> Inr True" "list_ex failed_lookup [] \<longrightarrow> r = Inr False"
      by (simp_all add: w2_def)
    moreover have "list_all is_entry_call []" "\<not> list_ex failed_lookup (butlast [])" by simp_all
    ultimately show ?thesis using fs_def by blast
  next
    case failed
    then have "w' = w3" "r = r1" using step assms(2) b by (auto split: if_splits)
    then have "r \<noteq> Inr True" "w' = w3" "list_ex failed_lookup nb \<longrightarrow> r = Inr False"
      using failed(2) nb(5) by simp_all
    then show ?thesis using w3 nb(2,4) fs_def by blast
  next
    case range
    then have "w' = w3" "r = Inl IndexOutOfRange" using step assms(2) b by (auto split: if_splits)
    moreover have "\<not> list_ex failed_lookup nb" using nb(5) range(2) by auto
    ultimately have "r \<noteq> Inr True" "w' = w3" "list_ex failed_lookup nb \<longrightarrow> r = Inr False"
      by simp_all
    then show ?thesis using w3 nb(2,4) fs_def by blast
  next
    case go
    then have "FlushEntries_loop env force w3 = (r, w')" using step assms(2) b by (auto split: if_splits)
    moreover have "\<not> list_ex failed_lookup nb" using nb(5) go(2) by auto
    moreover have "DCHECK_IS_ON env \<longrightarrow> length fs = c" using go(1) by simp
    moreover have "entry_names nb = map (slot_name env) (zip (take c ?p) (zip ab fs))"
      using nb(3) go(2) by simp
    ultimately show ?thesis using w3 nb(2,4) go(3) fs_def by blast
  qed
qed

lemma FlushEntries_loop_first_batch:
  assumes "kMaxPendingEntriesCount \<le> length (pending_entries w) \<or> (force \<and> pending_entries w \<noteq> [])"
    and "FlushEntries_loop env force w = (r, w')"
    and "c = min (length (pending_entries w)) kMaxPendingEntriesCount"
    and "ab = map (Append env (root_dir w)) (take c (pending_entries w))"
  shows "\<exists>fs nb w3.
      w3 = w\<lparr>pending_entries := drop c (pending_entries w), trace := trace w @ OpenFiles ab fs # nb\<rparr>
      \<and> batch_calls nb = []
      \<and> (r \<noteq> Inr True \<and> w' = w3 \<or> FlushEntries_loop env force w3 = (r, w'))"
proof -
  obtain fs nb w3 where f:
    "w3 = w\<lparr>pending_entries := drop c (pending_entries w), trace := trace w @ OpenFiles ab fs # nb\<rparr>"
    "list_all is_entry_call nb"
    "r \<noteq> Inr True \<and> w' = w3 \<or> FlushEntries_loop env force w3 = (r, w')"
    using FlushEntries_loop_first[OF assms] by blast
  have "batch_calls nb = []" using entry_calls_no_batch[OF f(2)] by simp
  then show ?thesis using f(1,3) by blast
qed

text \<open>
  What a run of the loop does: it removes a prefix of the queue, hands exactly that prefix
  to the FileAccessor in batches, and issues its calls in order. When every answer of the
  FileAccessor had one file for each path, a successful run has opened one entry for each
  path of the prefix.
\<close>

lemma FlushEntries_loop_extends:
  "FlushEntries_loop env force w = (r, w') \<Longrightarrow>
   \<exists>new n. w' = w\<lparr>pending_entries := drop n (pending_entries w), trace := trace w @ new\<rparr>
     \<and> concat (batch_calls new) = map (Append env (root_dir w)) (take n (pending_entries w))
     \<and> n \<le> length (pending_entries w)
     \<and> list_all (\<lambda>b. b \<noteq> [] \<and> length b \<le> kMaxPendingEntriesCount) (batch_calls new)
     \<and> (r \<noteq> Inr True \<longrightarrow> batch_calls new \<noteq> [])
     \<and> \<not> list_ex is_progress new
     \<and> ((\<forall>tr ps. length (OpenFilesForReading env tr ps) = length ps) \<longrightarrow> list_all slots_match new)
     \<and> \<not> list_ex failed_lookup (butlast new)
     \<and> (list_ex failed_lookup new \<longrightarrow> r = Inr False)
     \<and> (r = Inr True \<longrightarrow> (force \<longrightarrow> n = length (pending_entries w))
           \<and> length (pending_entries w) - n < kMaxPendingEntriesCount
           \<and> (DCHECK_IS_ON env \<or> list_all slots_match new \<longrightarrow>
                length (batch_files new) = n
                \<and> entry_names new = expected_names env (take n (pending_entries w)) (batch_files new)))"
proof (induction "length (pending_entries w)" arbitrary: w rule: less_induct)
  case less
  let ?p = "pending_entries w"
  show ?case
  proof (cases "kMaxPendingEntriesCount \<le> length ?p \<or> (force \<and> ?p \<noteq> [])")
    case False
    then have "FlushEntries_loop env force w = (Inr True, w)"
      by (intro FlushEntries_loop_done) auto
    then have "w' = w" "r = Inr True" using less.prems by simp_all
    then show ?thesis using False
      by (intro exI[of _ "[]"] exI[of _ "0::nat"]) (auto simp: expected_names_def)
  next
    case True
    define c where "c = min (length ?p) kMaxPendingEntriesCount"
    define ab where "ab = map (Append env (root_dir w)) (take c ?p)"
    have c: "0 < c" "c \<le> length ?p" "c \<le> kMaxPendingEntriesCount"
      using True by (auto simp: c_def kMaxPendingEntriesCount_def)
    have lab: "length ab = c" "ab \<noteq> []" using c by (auto simp: ab_def)
    obtain fs nb w3 where f:
      "w3 = w\<lparr>pending_entries := drop c ?p, trace := trace w @ OpenFiles ab fs # nb\<rparr>"
      "list_all is_entry_call nb"
      "\<not> list_ex failed_lookup (butlast nb)"
      "r \<noteq> Inr True \<and> w' = w3 \<and> (list_ex failed_lookup nb \<longrightarrow> r = Inr False)
         \<or> FlushEntries_loop env force w3 = (r, w') \<and> \<not> list_ex failed_lookup nb
           \<and> length fs \<le> c \<and> (DCHECK_IS_ON env \<longrightarrow> length fs = c)
           \<and> entry_names nb = map (slot_name env) (zip (take c ?p) (zip ab fs))"
      and fs: "fs = OpenFilesForReading env (trace w) ab"
      using FlushEntries_loop_first[OF True less.prems c_def ab_def] by blast
    note q = entry_calls_no_batch[OF f(2)]
    have sm: "(\<forall>tr ps. length (OpenFilesForReading env tr ps) = length ps)
        \<longrightarrow> list_all slots_match (OpenFiles ab fs # nb)"
      using entry_calls_slots_match[OF f(2)] fs by simp
    let ?e = "OpenFiles ab fs"
    have conc: "concat (batch_calls (?e # nb)) = map (Append env (root_dir w)) (take c ?p)"
      using q by (simp add: ab_def)
    have all: "list_all (\<lambda>b. b \<noteq> [] \<and> length b \<le> kMaxPendingEntriesCount) (batch_calls (?e # nb))"
      using q lab c by simp
    have np: "\<not> list_ex is_progress (?e # nb)" using q by simp
    have bl: "\<not> list_ex failed_lookup (butlast (?e # nb))"
      using no_ex_butlast_append[of failed_lookup "[?e]" nb] f(3) by simp
    show ?thesis
    proof (cases "r \<noteq> Inr True \<and> w' = w3 \<and> (list_ex failed_lookup nb \<longrightarrow> r = Inr False)")
      case stop: True
      then have "w' = w\<lparr>pending_entries := drop c ?p, trace := trace w @ (?e # nb)\<rparr>"
        "list_ex failed_lookup (?e # nb) \<longrightarrow> r = Inr False" "r \<noteq> Inr True"
        using f(1) by simp_all
      moreover have "batch_calls (?e # nb) \<noteq> []" by simp
      ultimately show ?thesis using conc all np bl c(2) sm by blast
    next
      case False
      then have rec: "FlushEntries_loop env force w3 = (r, w')"
        and nf: "\<not> list_ex failed_lookup (?e # nb)"
        and lfs: "length fs \<le> c" "DCHECK_IS_ON env \<longrightarrow> length fs = c"
        and names: "entry_names nb = map (slot_name env) (zip (take c ?p) (zip ab fs))"
        using f(4) by auto
      have p3: "pending_entries w3 = drop c ?p" "root_dir w3 = root_dir w" "trace w3 = trace w @ (?e # nb)"
        by (simp_all add: f(1))
      have "length (pending_entries w3) < length ?p" using c p3 by simp
      from less.hyps[OF this rec] obtain new' n' where
        IH: "w' = w3\<lparr>pending_entries := drop n' (pending_entries w3), trace := trace w3 @ new'\<rparr>"
          "concat (batch_calls new') = map (Append env (root_dir w3)) (take n' (pending_entries w3))"
          "n' \<le> length (pending_entries w3)"
          "list_all (\<lambda>b. b \<noteq> [] \<and> length b \<le> kMaxPendingEntriesCount) (batch_calls new')"
          "\<not> list_ex is_progress new'"
          "(\<forall>tr ps. length (OpenFilesForReading env tr ps) = length ps) \<longrightarrow> list_all slots_match new'"
          "\<not> list_ex failed_lookup (butlast new')"
          "list_ex failed_lookup new' \<longrightarrow> r = Inr False"
          "r = Inr True \<longrightarrow> (force \<longrightarrow> n' = length (pending_entries w3))
           \<and> length (pending_entries w3) - n' < kMaxPendingEntriesCount
           \<and> (DCHECK_IS_ON env \<or> list_all slots_match new' \<longrightarrow>
                length (batch_files new') = n'
                \<and> entry_names new' = expected_names env (take n' (pending_entries w3)) (batch_files new'))"
        by blast
      let ?new = "(?e # nb) @ new'"
      let ?n = "c + n'"
      have tk: "take ?n ?p = take c ?p @ take n' (drop c ?p)" by (simp add: take_add)
      have 1: "w' = w\<lparr>pending_entries := drop ?n ?p, trace := trace w @ ?new\<rparr>"
        using IH(1) by (simp add: f(1) add.commute)
      have 2: "concat (batch_calls ?new) = map (Append env (root_dir w)) (take ?n ?p)"
        using conc IH(2) p3 tk by simp
      have 3: "?n \<le> length ?p" using IH(3) p3 c by simp
      have 4: "list_all (\<lambda>b. b \<noteq> [] \<and> length b \<le> kMaxPendingEntriesCount) (batch_calls ?new)"
        using all IH(4) by simp
      have 5: "\<not> list_ex is_progress ?new" using np IH(5) by simp
      have 6: "\<not> list_ex failed_lookup (butlast ?new)"
        by (rule no_ex_butlast_append[OF nf IH(7)])
      have 7: "list_ex failed_lookup ?new \<longrightarrow> r = Inr False" using nf IH(8) by simp
      have bf: "batch_files (?e # nb) = fs" using q by simp
      have 8: "r = Inr True \<longrightarrow> (force \<longrightarrow> ?n = length ?p)
           \<and> length ?p - ?n < kMaxPendingEntriesCount
           \<and> (DCHECK_IS_ON env \<or> list_all slots_match ?new \<longrightarrow>
                length (batch_files ?new) = ?n
                \<and> entry_names ?new = expected_names env (take ?n ?p) (batch_files ?new))"
      proof
        assume ok: "r = Inr True"
        then have h: "force \<longrightarrow> n' = length (drop c ?p)"
          "length (drop c ?p) - n' < kMaxPendingEntriesCount"
          "DCHECK_IS_ON env \<or> list_all slots_match new' \<longrightarrow>
                length (batch_files new') = n'
                \<and> entry_names new' = expected_names env (take n' (drop c ?p)) (batch_files new')"
          using IH(9) p3 by simp_all
        have a: "force \<longrightarrow> ?n = length ?p" using h(1) c by simp
        have b: "length ?p - ?n < kMaxPendingEntriesCount" using h(2) by simp
        have d: "length (batch_files ?new) = ?n
                \<and> entry_names ?new = expected_names env (take ?n ?p) (batch_files ?new)"
          if H: "DCHECK_IS_ON env \<or> list_all slots_match ?new"
        proof -
          have len: "length fs = c" using H lfs(2) lab(1) by auto
          have "DCHECK_IS_ON env \<or> list_all slots_match new'" using H by auto
          then have h': "length (batch_files new') = n'"
            "entry_names new' = expected_names env (take n' (drop c ?p)) (batch_files new')"
            using h(3) by simp_all
          have en: "entry_names (?e # nb) = expected_names env (take c ?p) fs"
            using names slot_names_expected[of "take c ?p" ab fs env] lab len c by simp
          have "length (batch_files ?new) = ?n" using bf h'(1) len by simp
          moreover have "entry_names ?new = expected_names env (take ?n ?p) (batch_files ?new)"
            using en h'(2) bf tk expected_names_append[of "take c ?p" fs env] len c by simp
          ultimately show ?thesis by blast
        qed
        show "(force \<longrightarrow> ?n = length ?p)
           \<and> length ?p - ?n < kMaxPendingEntriesCount
           \<and> (DCHECK_IS_ON env \<or> list_all slots_match ?new \<longrightarrow>
                length (batch_files ?new) = ?n
                \<and> entry_names ?new = expected_names env (take ?n ?p) (batch_files ?new))"
          using a b d by blast
      qed
      have 9: "r \<noteq> Inr True \<longrightarrow> batch_calls ?new \<noteq> []" by simp
      have 10: "(\<forall>tr ps. length (OpenFilesForReading env tr ps) = length ps)
          \<longrightarrow> list_all slots_match ?new"
        using sm IH(6) by simp
      show ?thesis using 1 2 3 4 5 6 7 8 9 10 by blast
    qed
  qed
qed

lemma flush_threshold_cases:
  assumes "FlushEntriesIfNeeded env force w = (r, w')" and "trace w' = trace w @ new"
  shows "(length (pending_entries w) = 50 \<longrightarrow>
            batch_calls new = [map (Append env (root_dir w)) (pending_entries w)]
            \<and> pending_entries w' = [])
    \<and> (length (pending_entries w) = 51 \<and> \<not> force \<longrightarrow>
            batch_calls new = [map (Append env (root_dir w)) (take 50 (pending_entries w))]
            \<and> pending_entries w' = drop 50 (pending_entries w))
    \<and> (length (pending_entries w) = 51 \<and> force \<and> r = Inr True \<longrightarrow>
            batch_calls new = [map (Append env (root_dir w)) (take 50 (pending_entries w)),
                               map (Append env (root_dir w)) (drop 50 (pending_entries w))]
            \<and> pending_entries w' = [])"
proof -
  let ?p = "pending_entries w"
  let ?A = "Append env (root_dir w)"
  have run: "FlushEntries_loop env force w = (r, w')"
    using assms(1) by (simp add: FlushEntriesIfNeeded_loop)
  have first: "\<exists>fs nb w3.
      w3 = w\<lparr>pending_entries := drop 50 ?p, trace := trace w @ OpenFiles (map ?A (take 50 ?p)) fs # nb\<rparr>
      \<and> batch_calls nb = []
      \<and> (r \<noteq> Inr True \<and> w' = w3 \<or> FlushEntries_loop env force w3 = (r, w'))"
    if h: "50 \<le> length ?p"
  proof -
    have c: "kMaxPendingEntriesCount \<le> length ?p \<or> (force \<and> ?p \<noteq> [])"
      using h by (simp add: kMaxPendingEntriesCount_def)
    have m: "50 = min (length ?p) kMaxPendingEntriesCount"
      using h by (simp add: kMaxPendingEntriesCount_def)
    show ?thesis by (rule FlushEntries_loop_first_batch[OF c run m refl])
  qed
  have a: "batch_calls new = [map ?A ?p] \<and> pending_entries w' = []" if l: "length ?p = 50"
  proof -
    obtain fs nb w3 where f:
      "w3 = w\<lparr>pending_entries := drop 50 ?p, trace := trace w @ OpenFiles (map ?A (take 50 ?p)) fs # nb\<rparr>"
      "batch_calls nb = []"
      "r \<noteq> Inr True \<and> w' = w3 \<or> FlushEntries_loop env force w3 = (r, w')"
      using first l by auto
    have "pending_entries w3 = []" using f(1) l by simp
    then have "FlushEntries_loop env force w3 = (Inr True, w3)"
      by (intro FlushEntries_loop_done) (simp_all add: kMaxPendingEntriesCount_def)
    then have w': "w' = w3" using f(3) by auto
    then have "new = OpenFiles (map ?A (take 50 ?p)) fs # nb" using f(1) assms(2) by simp
    then have "batch_calls new = [map ?A (take 50 ?p)]" using f(2) by simp
    then show ?thesis using w' f(1) l by simp
  qed
  have b: "batch_calls new = [map ?A (take 50 ?p)] \<and> pending_entries w' = drop 50 ?p"
    if l: "length ?p = 51" and nf: "\<not> force"
  proof -
    obtain fs nb w3 where f:
      "w3 = w\<lparr>pending_entries := drop 50 ?p, trace := trace w @ OpenFiles (map ?A (take 50 ?p)) fs # nb\<rparr>"
      "batch_calls nb = []"
      "r \<noteq> Inr True \<and> w' = w3 \<or> FlushEntries_loop env force w3 = (r, w')"
      using first l by auto
    have "length (pending_entries w3) = 1" using f(1) l by simp
    then have "FlushEntries_loop env force w3 = (Inr True, w3)"
      using nf by (intro FlushEntries_loop_done) (simp_all add: kMaxPendingEntriesCount_def)
    then have w': "w' = w3" using f(3) by auto
    then have "new = OpenFiles (map ?A (take 50 ?p)) fs # nb" using f(1) assms(2) by simp
    then have "batch_calls new = [map ?A (take 50 ?p)]" using f(2) by simp
    then show ?thesis using w' f(1) by simp
  qed
  have c: "batch_calls new = [map ?A (take 50 ?p), map ?A (drop 50 ?p)] \<and> pending_entries w' = []"
    if l: "length ?p = 51" and fo: "force" and ok: "r = Inr True"
  proof -
    obtain fs nb w3 where f:
      "w3 = w\<lparr>pending_entries := drop 50 ?p, trace := trace w @ OpenFiles (map ?A (take 50 ?p)) fs # nb\<rparr>"
      "batch_calls nb = []"
      "r \<noteq> Inr True \<and> w' = w3 \<or> FlushEntries_loop env force w3 = (r, w')"
      using first l by auto
    have run3: "FlushEntries_loop env force w3 = (r, w')" using f(3) ok by simp
    have p3: "pending_entries w3 = drop 50 ?p" "length (pending_entries w3) = 1"
      "root_dir w3 = root_dir w"
      using f(1) l by simp_all
    have c3: "kMaxPendingEntriesCount \<le> length (pending_entries w3) \<or> (force \<and> pending_entries w3 \<noteq> [])"
      using fo p3(2) by auto
    have m3: "1 = min (length (pending_entries w3)) kMaxPendingEntriesCount"
      using p3(2) by (simp add: kMaxPendingEntriesCount_def)
    obtain fs' nb' w5 where g:
      "w5 = w3\<lparr>pending_entries := drop 1 (pending_entries w3),
               trace := trace w3 @ OpenFiles (map (Append env (root_dir w3)) (take 1 (pending_entries w3))) fs' # nb'\<rparr>"
      "batch_calls nb' = []"
      "r \<noteq> Inr True \<and> w' = w5 \<or> FlushEntries_loop env force w5 = (r, w')"
      using FlushEntries_loop_first_batch[OF c3 run3 m3 refl] by blast
    have "pending_entries w5 = []" using g(1) p3(2) by simp
    then have "FlushEntries_loop env force w5 = (Inr True, w5)"
      by (intro FlushEntries_loop_done) (simp_all add: kMaxPendingEntriesCount_def)
    then have w5: "w' = w5" using g(3) ok by simp
    have "take 1 (pending_entries w3) = drop 50 ?p" using p3(1,2) by simp
    then have "trace w' = trace w @ (OpenFiles (map ?A (take 50 ?p)) fs # nb)
                 @ (OpenFiles (map ?A (drop 50 ?p)) fs' # nb')"
      using w5 g(1) f(1) p3(3) by simp
    then have "new = (OpenFiles (map ?A (take 50 ?p)) fs # nb) @ (OpenFiles (map ?A (drop 50 ?p)) fs' # nb')"
      using assms(2) by simp
    then show ?thesis using f(2) g(2) w5 \<open>pending_entries w5 = []\<close> by simp
  qed
  show ?thesis using a b c by blast
qed

subsection \<open>The public operations\<close>

lemma AddEntries_cases:
  assumes "AddEntries env paths w = (r, w')"
  shows "(r = Inl DCheckFailure \<and> w' = w)
     \<or> FlushEntries_loop env False (w\<lparr>pending_entries := pending_entries w @ paths\<rparr>) = (r, w')"
  using assms by (auto simp: AddEntries_def FlushEntriesIfNeeded_loop split: if_splits)

lemma Close_cases:
  assumes "Close env w = (r, w')"
  obtains (abort) e where "FlushEntries_loop env True w = (Inl e, w')" "r = Inl e"
  | (failed) w1 where "FlushEntries_loop env True w = (Inr False, w1)" "r = Inr False"
      "w' = w1\<lparr>zip_file := False\<rparr>"
  | (closed) w1 where "FlushEntries_loop env True w = (Inr True, w1)"
      "r = Inr (zipClose env (trace w1))"
      "w' = w1\<lparr>trace := trace w1 @ [CloseZip (zipClose env (trace w1))], zip_file := False\<rparr>"
proof -
  obtain r1 w1 where f: "FlushEntries_loop env True w = (r1, w1)" by fastforce
  consider e where "r1 = Inl e" | "r1 = Inr False" | "r1 = Inr True"
    by (cases r1) auto
  then show ?thesis
  proof cases
    case 1
    then have "r = Inl e" "w' = w1" using assms f
      by (auto simp: Close_def FlushEntriesIfNeeded_loop)
    then show ?thesis using f 1 abort by simp
  next
    case 2
    then have "r = Inr False" "w' = w1\<lparr>zip_file := False\<rparr>" using assms f
      by (auto simp: Close_def FlushEntriesIfNeeded_loop)
    moreover have "FlushEntries_loop env True w = (Inr False, w1)" using f 2 by simp
    ultimately show ?thesis by (rule failed[rotated 1])
  next
    case 3
    then have "r = Inr (zipClose env (trace w1))"
      "w' = w1\<lparr>trace := trace w1 @ [CloseZip (zipClose env (trace w1))], zip_file := False\<rparr>"
      using assms f by (auto simp: Close_def FlushEntriesIfNeeded_loop Let_def emit_def)
    moreover have "FlushEntries_loop env True w = (Inr True, w1)" using f 3 by simp
    ultimately show ?thesis by (rule closed[rotated 1])
  qed
qed

lemma WriteEntries_cases:
  assumes "WriteEntries env paths w = (r, w')"
  obtains (stopped) "AddEntries env paths w = (r, w')" "r \<noteq> Inr True"
  | (added) w1 where "AddEntries env paths w = (Inr True, w1)" "Close env w1 = (r, w')"
proof -
  obtain r1 w1 where f: "AddEntries env paths w = (r1, w1)" by fastforce
  show ?thesis
  proof (cases "r1 = Inr True")
    case True
    then show ?thesis using assms f added by (simp add: WriteEntries_def)
  next
    case False
    then have "WriteEntries env paths w = (r1, w1)" using f
      by (cases r1) (auto simp: WriteEntries_def split: bool.splits)
    then show ?thesis using assms f False stopped by simp
  qed
qed


lemma AddEntries_trace:
  assumes "AddEntries env paths w = (r, w')"
  shows "\<exists>new. trace w' = trace w @ new
     \<and> \<not> list_ex is_progress new
     \<and> \<not> list_ex failed_lookup (butlast new)
     \<and> (list_ex failed_lookup new \<longrightarrow> r = Inr False)"
proof -
  consider "r = Inl DCheckFailure" "w' = w"
    | "FlushEntries_loop env False (w\<lparr>pending_entries := pending_entries w @ paths\<rparr>) = (r, w')"
    using AddEntries_cases[OF assms] by blast
  then show ?thesis
  proof cases
    case 1
    then show ?thesis by (intro exI[of _ "[]"]) simp
  next
    case 2
    let ?w0 = "w\<lparr>pending_entries := pending_entries w @ paths\<rparr>"
    obtain new n where
      "w' = ?w0\<lparr>pending_entries := drop n (pending_entries ?w0), trace := trace ?w0 @ new\<rparr>"
      "\<not> list_ex is_progress new" "\<not> list_ex failed_lookup (butlast new)"
      "list_ex failed_lookup new \<longrightarrow> r = Inr False"
      using FlushEntries_loop_extends[OF 2] by blast
    then show ?thesis by (intro exI[of _ new]) simp
  qed
qed



text \<open>
  \<open>AddEntries\<close> alone writes a prefix of what is submitted: fewer than 50 paths may stay in
  the queue until \<open>Close\<close> flushes them.
\<close>

lemma AddEntries_opens_a_prefix:
  assumes "pending_entries w = []" and "AddEntries env paths w = (Inr True, w')"
    and "trace w' = trace w @ new" and "DCHECK_IS_ON env \<or> list_all slots_match new"
  shows "\<exists>n. pending_entries w' = drop n paths \<and> n \<le> length paths
     \<and> length (pending_entries w') < 50
     \<and> length (entry_names new) = n \<and> length (batch_files new) = n
     \<and> entry_names new = expected_names env (take n paths) (batch_files new)
     \<and> concat (batch_calls new) = map (Append env (root_dir w)) (take n paths)
     \<and> (\<forall>b \<in> set (batch_calls new). length b \<le> 50)"
proof -
  let ?w0 = "w\<lparr>pending_entries := pending_entries w @ paths\<rparr>"
  have a: "FlushEntries_loop env False ?w0 = (Inr True, w')"
    using AddEntries_cases[OF assms(2)] by auto
  obtain new0 n where 1:
    "w' = ?w0\<lparr>pending_entries := drop n (pending_entries ?w0), trace := trace ?w0 @ new0\<rparr>"
    "concat (batch_calls new0) = map (Append env (root_dir ?w0)) (take n (pending_entries ?w0))"
    "n \<le> length (pending_entries ?w0)"
    "list_all (\<lambda>b. b \<noteq> [] \<and> length b \<le> kMaxPendingEntriesCount) (batch_calls new0)"
    "length (pending_entries ?w0) - n < kMaxPendingEntriesCount"
    "DCHECK_IS_ON env \<or> list_all slots_match new0 \<longrightarrow>
        length (batch_files new0) = n
        \<and> entry_names new0 = expected_names env (take n (pending_entries ?w0)) (batch_files new0)"
    using FlushEntries_loop_extends[OF a] by blast
  have n0: "new0 = new" using 1(1) assms(3) by simp
  have m: "length (batch_files new) = n"
    "entry_names new = expected_names env (take n paths) (batch_files new)"
    using 1(6) assms(1,4) n0 by simp_all
  have "length (entry_names new) = n" using m 1(3) assms(1) by (simp add: expected_names_def)
  moreover have "pending_entries w' = drop n paths" "n \<le> length paths"
    "length (pending_entries w') < 50"
    using 1(1,3,5) assms(1) by (simp_all add: kMaxPendingEntriesCount_def)
  moreover have "concat (batch_calls new) = map (Append env (root_dir w)) (take n paths)"
    using 1(2) assms(1) n0 by simp
  moreover have "\<forall>b \<in> set (batch_calls new). length b \<le> 50"
    using 1(4) n0 by (auto simp: list_all_iff kMaxPendingEntriesCount_def)
  ultimately show ?thesis using m by blast
qed

text \<open>\<open>WriteEntries\<close> writes all of it.\<close>

lemma WriteEntries_opens_every_path:
  assumes "pending_entries w = []" and "WriteEntries env paths w = (Inr True, w')"
    and "trace w' = trace w @ new" and "DCHECK_IS_ON env \<or> list_all slots_match new"
  shows "pending_entries w' = []
     \<and> length (entry_names new) = length paths \<and> length (batch_files new) = length paths
     \<and> entry_names new = expected_names env paths (batch_files new)
     \<and> concat (batch_calls new) = map (Append env (root_dir w)) paths
     \<and> (\<forall>b \<in> set (batch_calls new). length b \<le> 50)"
proof -
  from assms(2) show ?thesis
  proof (cases rule: WriteEntries_cases)
    case stopped
    then show ?thesis by simp
  next
    case (added w1)
    let ?w0 = "w\<lparr>pending_entries := pending_entries w @ paths\<rparr>"
    have a: "FlushEntries_loop env False ?w0 = (Inr True, w1)"
      using AddEntries_cases[OF added(1)] by auto
    obtain n1 m1 where 1:
      "w1 = ?w0\<lparr>pending_entries := drop m1 (pending_entries ?w0), trace := trace ?w0 @ n1\<rparr>"
      "concat (batch_calls n1) = map (Append env (root_dir ?w0)) (take m1 (pending_entries ?w0))"
      "m1 \<le> length (pending_entries ?w0)"
      "list_all (\<lambda>b. b \<noteq> [] \<and> length b \<le> kMaxPendingEntriesCount) (batch_calls n1)"
      "DCHECK_IS_ON env \<or> list_all slots_match n1 \<longrightarrow>
         length (batch_files n1) = m1
         \<and> entry_names n1 = expected_names env (take m1 (pending_entries ?w0)) (batch_files n1)"
      using FlushEntries_loop_extends[OF a] by blast
    have p1: "pending_entries w1 = drop m1 paths" "root_dir w1 = root_dir w" "trace w1 = trace w @ n1"
      using 1(1) assms(1) by simp_all
    from added(2) show ?thesis
    proof (cases rule: Close_cases)
      case (abort e)
      then show ?thesis by simp
    next
      case (failed w2)
      then show ?thesis by simp
    next
      case (closed w2)
      obtain n2 m2 where 2:
        "w2 = w1\<lparr>pending_entries := drop m2 (pending_entries w1), trace := trace w1 @ n2\<rparr>"
        "concat (batch_calls n2) = map (Append env (root_dir w1)) (take m2 (pending_entries w1))"
        "list_all (\<lambda>b. b \<noteq> [] \<and> length b \<le> kMaxPendingEntriesCount) (batch_calls n2)"
        "DCHECK_IS_ON env \<or> list_all slots_match n2 \<longrightarrow>
           length (batch_files n2) = m2
           \<and> entry_names n2 = expected_names env (take m2 (pending_entries w1)) (batch_files n2)"
        "m2 = length (pending_entries w1)"
        using FlushEntries_loop_extends[OF closed(1)] by blast
      let ?new = "n1 @ n2 @ [CloseZip (zipClose env (trace w2))]"
      have m: "m1 \<le> length paths" "m2 = length paths - m1" using 1(3) 2(5) p1 assms(1) by simp_all
      have "trace w' = trace w @ ?new" using closed(3) 2(1) p1 by simp
      then have new: "new = ?new" using assms(3) by simp
      have H: "DCHECK_IS_ON env \<or> list_all slots_match n1" "DCHECK_IS_ON env \<or> list_all slots_match n2"
        using assms(4) new by auto
      have f1: "length (batch_files n1) = m1"
        "entry_names n1 = expected_names env (take m1 paths) (batch_files n1)"
        using 1(5) H(1) assms(1) by simp_all
      have f2: "length (batch_files n2) = m2"
        "entry_names n2 = expected_names env (drop m1 paths) (batch_files n2)"
        using 2(4) H(2) 2(5) p1 by simp_all
      have pe: "pending_entries w' = []" using closed(3) 2(1,5) by simp
      have bf: "length (batch_files ?new) = length paths" using f1(1) f2(1) m by simp
      have en: "entry_names ?new = expected_names env paths (batch_files ?new)"
      proof -
        have "entry_names ?new = expected_names env (take m1 paths) (batch_files n1)
                @ expected_names env (drop m1 paths) (batch_files n2)"
          using f1(2) f2(2) by simp
        also have "\<dots> = expected_names env (take m1 paths @ drop m1 paths) (batch_files n1 @ batch_files n2)"
          by (rule expected_names_append[symmetric]) (use f1(1) m in simp)
        finally show ?thesis by simp
      qed
      have ln: "length (entry_names ?new) = length paths"
        using en bf by (simp add: expected_names_def)
      have cc: "concat (batch_calls ?new) = map (Append env (root_dir w)) paths"
      proof -
        have "concat (batch_calls ?new) = map (Append env (root_dir w)) (take m1 paths)
                @ map (Append env (root_dir w)) (drop m1 paths)"
          using 1(2) 2(2) 2(5) p1 assms(1) by simp
        also have "\<dots> = map (Append env (root_dir w)) (take m1 paths @ drop m1 paths)"
          by (simp only: map_append)
        finally show ?thesis by simp
      qed
      have le: "\<forall>b \<in> set (batch_calls ?new). length b \<le> 50"
        using 1(4) 2(3) by (auto simp: list_all_iff kMaxPendingEntriesCount_def)
      show ?thesis using pe ln bf en cc le unfolding new by blast
    qed
  qed
qed

text \<open>
  A FileAccessor that answers one file for each path it is given makes every call of a
  run match.
\<close>

lemma AddEntries_slots_match:
  assumes "\<forall>tr ps. length (OpenFilesForReading env tr ps) = length ps"
    and "AddEntries env paths w = (r, w')" and "trace w' = trace w @ new"
  shows "list_all slots_match new"
proof -
  consider "r = Inl DCheckFailure" "w' = w"
    | "FlushEntries_loop env False (w\<lparr>pending_entries := pending_entries w @ paths\<rparr>) = (r, w')"
    using AddEntries_cases[OF assms(2)] by blast
  then show ?thesis
  proof cases
    case 1
    then show ?thesis using assms(3) by simp
  next
    case 2
    let ?w0 = "w\<lparr>pending_entries := pending_entries w @ paths\<rparr>"
    obtain new0 n where
      "w' = ?w0\<lparr>pending_entries := drop n (pending_entries ?w0), trace := trace ?w0 @ new0\<rparr>"
      "(\<forall>tr ps. length (OpenFilesForReading env tr ps) = length ps) \<longrightarrow> list_all slots_match new0"
      using FlushEntries_loop_extends[OF 2] by blast
    then show ?thesis using assms(1,3) by simp
  qed
qed

lemma WriteEntries_slots_match:
  assumes "\<forall>tr ps. length (OpenFilesForReading env tr ps) = length ps"
    and "WriteEntries env paths w = (r, w')" and "trace w' = trace w @ new"
  shows "list_all slots_match new"
  using assms(2)
proof (cases rule: WriteEntries_cases)
  case stopped
  show ?thesis by (rule AddEntries_slots_match[OF assms(1) stopped(1) assms(3)])
next
  case (added w1)
  obtain n1 where n1: "trace w1 = trace w @ n1"
    using AddEntries_trace[OF added(1)] by blast
  have s1: "list_all slots_match n1" by (rule AddEntries_slots_match[OF assms(1) added(1) n1])
  from added(2) show ?thesis
  proof (cases rule: Close_cases)
    case (abort e)
    obtain n2 n where "w' = w1\<lparr>pending_entries := drop n (pending_entries w1), trace := trace w1 @ n2\<rparr>"
      "(\<forall>tr ps. length (OpenFilesForReading env tr ps) = length ps) \<longrightarrow> list_all slots_match n2"
      using FlushEntries_loop_extends[OF abort(1)] by blast
    then show ?thesis using assms(1,3) n1 s1 by auto
  next
    case (failed w2)
    obtain n2 n where "w2 = w1\<lparr>pending_entries := drop n (pending_entries w1), trace := trace w1 @ n2\<rparr>"
      "(\<forall>tr ps. length (OpenFilesForReading env tr ps) = length ps) \<longrightarrow> list_all slots_match n2"
      using FlushEntries_loop_extends[OF failed(1)] by blast
    then show ?thesis using assms(1,3) n1 s1 failed(3) by auto
  next
    case (closed w2)
    obtain n2 n where "w2 = w1\<lparr>pending_entries := drop n (pending_entries w1), trace := trace w1 @ n2\<rparr>"
      "(\<forall>tr ps. length (OpenFilesForReading env tr ps) = length ps) \<longrightarrow> list_all slots_match n2"
      using FlushEntries_loop_extends[OF closed(1)] by blast
    then show ?thesis using assms(1,3) n1 s1 closed(3) by auto
  qed
qed

subsection \<open>Running the writer in the small world\<close>

lemmas run_simps = WriteEntries_def AddEntries_def Close_def FlushEntriesIfNeeded_loop
  FlushEntries_loop_unfold FlushEntries_loop_done AddFileEntry_def AddDirectoryEntry_def
  AddFileContent_def OpenNewFileEntry_def CloseNewFileEntry_def str_path_def emit_def
  ZipWriter_def kMaxPendingEntriesCount_def Let_def
  demo_env_def demo_file_def demo_writer_def eval_nat_numeral

lemmas queue_simps = FlushEntriesIfNeeded_loop
  FlushEntries_loop_unfold FlushEntries_loop_done AddFileEntry_def AddDirectoryEntry_def
  AddFileContent_def OpenNewFileEntry_def CloseNewFileEntry_def str_path_def emit_def
  ZipWriter_def kMaxPendingEntriesCount_def Let_def
  demo_env_def demo_file_def demo_writer_def demo_queue_def eval_nat_numeral

lemma demo_add_51:
  "fst (AddEntries demo_env (''d'' # replicate 50 ''a'') demo_writer) = Inr True"
  by (simp add: run_simps)

lemma demo_run_51:
  "fst (WriteEntries demo_env (''d'' # replicate 50 ''a'') demo_writer) = Inr True"
  by (simp add: run_simps)

lemma demo_flush_51_forced:
  "fst (FlushEntriesIfNeeded demo_env True (demo_queue (replicate 51 ''a''))) = Inr True"
  by (simp add: queue_simps)

section \<open>Facts about extraction and gathering\<close>

lemma UnzipEntries_unsafe:
  "is_unsafe e \<Longrightarrow>
     UnzipEntries env lg (pre @ e # post) tr = (False, snd (UnzipEntries env lg pre tr))"
proof (induction pre arbitrary: tr)
  case Nil
  then show ?case by simp
next
  case (Cons a pre)
  obtain r1 tr1 where u: "UnzipEntry env lg a tr = (r1, tr1)" by fastforce
  show ?case
  proof (cases "opens a \<and> \<not> is_unsafe a \<and> r1 \<and> advances a")
    case True
    then show ?thesis using u Cons by simp
  next
    case False
    then show ?thesis using u by (auto split: bool.splits)
  qed
qed

text \<open>
Extraction only ever adds to what it has done: nothing is undone.
\<close>

lemma UnzipEntries_extends:
  "UnzipEntries env lg es tr = (r, tr') \<Longrightarrow> \<exists>new. tr' = tr @ new"
proof (induction es arbitrary: tr)
  case Nil
  then show ?case by simp
next
  case (Cons a es)
  obtain r1 tr1 where u: "UnzipEntry env lg a tr = (r1, tr1)" by fastforce
  then have e1: "\<exists>n1. tr1 = tr @ n1"
    by (auto simp: UnzipEntry_def Let_def split: if_splits)
  show ?case
  proof (cases "opens a \<and> \<not> is_unsafe a \<and> r1 \<and> advances a")
    case True
    then have "UnzipEntries env lg es tr1 = (r, tr')" using u Cons.prems by simp
    then obtain n2 where "tr' = tr1 @ n2" using Cons.IH by blast
    then show ?thesis using e1 by auto
  next
    case False
    then have "tr' = tr \<or> tr' = tr1" using u Cons.prems by (auto split: bool.splits if_splits)
    then show ?thesis using e1 by auto
  qed
qed

lemma Zip_bfs_Nil: "Zip_bfs env params [] all_files = Some all_files"
  by (subst Zip_bfs.simps) simp

lemma Zip_bfs_Cons:
  "Zip_bfs env params (front # rest) all_files =
     Zip_bfs env params (rest @ kept_dirs env params front)
       (all_files @ kept_files env params front @ kept_dirs env params front)"
  by (subst Zip_bfs.simps) (simp add: kept_files_def kept_dirs_def split: prod.splits)

text \<open>
  If the traversal returns, the directories it listed are the queue followed by the
  subdirectories kept from each listed directory, in the order of listing, and the result
  is what was recorded for each of them in turn.
\<close>

lemma Zip_bfs_order:
  assumes "Zip_bfs env params q all_files = Some result"
  shows "\<exists>visited. q @ concat (map (kept_dirs env params) visited) = visited
       \<and> result = all_files
           @ concat (map (\<lambda>dir. kept_files env params dir @ kept_dirs env params dir) visited)"
proof (rule Zip_bfs.raw_induct[where P = "\<lambda>env params q all_files result.
    \<exists>visited. q @ concat (map (kept_dirs env params) visited) = visited
       \<and> result = all_files
           @ concat (map (\<lambda>dir. kept_files env params dir @ kept_dirs env params dir) visited)",
    OF _ assms], goal_cases)
  case (1 f env params q all_files result)
  note 3 = this
  show ?case
  proof (cases q)
    case Nil
    then have "result = all_files" using 3(2) by simp
    then show ?thesis using Nil by (intro exI[of _ "[]"]) simp
  next
    case (Cons front rest)
    then have "f env params (rest @ kept_dirs env params front)
        (all_files @ kept_files env params front @ kept_dirs env params front) = Some result"
      using 3(2) by (simp add: kept_files_def kept_dirs_def split: prod.splits)
    then obtain visited where v:
      "(rest @ kept_dirs env params front) @ concat (map (kept_dirs env params) visited) = visited"
      "result = (all_files @ kept_files env params front @ kept_dirs env params front)
           @ concat (map (\<lambda>dir. kept_files env params dir @ kept_dirs env params dir) visited)"
      using 3(1) by blast
    have "q @ concat (map (kept_dirs env params) (front # visited)) = front # visited"
      using v(1) Cons by simp
    moreover have "result = all_files
           @ concat (map (\<lambda>dir. kept_files env params dir @ kept_dirs env params dir) (front # visited))"
      using v(2) by simp
    ultimately show ?thesis by blast
  qed
qed

text \<open>
  The traversal returns on every tree of finite depth: it is enough that each kept
  subdirectory lies strictly below its parent for some measure.
\<close>

lemma Zip_bfs_returns:
  assumes "\<And>dir sub. sub \<in> set (kept_dirs env params dir) \<Longrightarrow> depth sub < (depth dir :: nat)"
  shows "\<exists>result. Zip_bfs env params q all_files = Some result"
proof -
  have "wf (inv_image (mult {(x :: nat, y). x < y}) (\<lambda>q. mset (map depth q)))"
    by (intro wf_inv_image wf_mult) (simp add: wf_less)
  then show ?thesis
  proof (induction q arbitrary: all_files rule: wf_induct_rule)
    case (less q)
    show ?case
    proof (cases q)
      case Nil
      then show ?thesis by (simp add: Zip_bfs_Nil)
    next
      case (Cons front rest)
      let ?q' = "rest @ kept_dirs env params front"
      have "(mset (map depth rest) + mset (map depth (kept_dirs env params front)),
             add_mset (depth front) (mset (map depth rest))) \<in> mult1 {(x, y). x < y}"
        by (rule mult1I[OF refl refl]) (use assms in auto)
      then have "(mset (map depth ?q'), mset (map depth q)) \<in> mult {(x, y). x < y}"
        using Cons by (simp add: mult_def)
      then have "(?q', q) \<in> inv_image (mult {(x, y). x < y}) (\<lambda>q. mset (map depth q))"
        by simp
      from less.IH[OF this] show ?thesis using Cons by (simp add: Zip_bfs_Cons)
    qed
  qed
qed

lemma demo_gather:
  "Zip_files_to_add demo_zip_env demo_params
     = Some [''a.txt'', ''sub'', ''sub/c.txt'', ''sub/deep'', ''sub/deep/y'']"
  by (simp add: Zip_files_to_add_def Zip_bfs_Nil Zip_bfs_Cons kept_files_def kept_dirs_def
      exclude_def IsHiddenFile_def demo_zip_env_def demo_params_def demo_List_def)

section \<open>Facts about progress reporting\<close>

lemma report_times_simps [simp]:
  "report_times [] = []"
  "report_times (e # tr) = report_time_of e @ report_times tr"
  "report_times (tr @ tr') = report_times tr @ report_times tr'"
  by (simp_all add: report_times_def)

lemma spaced_append:
  "spaced period due (a @ b) \<longleftrightarrow> spaced period due a \<and> spaced period (next_after period due a) b"
  by (induction a arbitrary: due) auto

lemma next_after_append:
  "next_after period due (a @ b) = next_after period (next_after period due a) b"
  by (induction a arbitrary: due) auto

lemma entry_calls_no_report: "list_all is_entry_call new \<Longrightarrow> report_times new = []"
proof (induction new)
  case Nil
  then show ?case by simp
next
  case (Cons e new)
  then show ?case by (cases e) simp_all
qed

lemma entry_calls_no_clock: "list_all is_entry_call new \<Longrightarrow> filter is_now new = []"
proof (induction new)
  case Nil
  then show ?case by simp
next
  case (Cons e new)
  then show ?case by (cases e) simp_all
qed

lemma due_runs_no_clock: "filter is_now xs = [] \<Longrightarrow> due_runs period due xs"
proof (induction xs arbitrary: due)
  case Nil
  then show ?case by simp
next
  case (Cons e xs)
  then show ?case by (cases e) (simp_all split: if_splits)
qed

lemma runs_at_append: "runs_at t a \<Longrightarrow> runs_at t (a @ b)"
  by (induction t a rule: runs_at.induct) simp_all

lemma due_runs_append:
  "due_runs period due a \<Longrightarrow> due_runs period (next_after period due (report_times a)) b
     \<Longrightarrow> due_runs period due (a @ b)"
proof (induction a arbitrary: due)
  case Nil
  then show ?case by simp
next
  case (Cons e a)
  then show ?case
    by (cases e) (auto simp: next_after_append runs_at_append)
qed

declare ReportedFlush.simps [simp del]

lemma ShouldContinue_trace:
  assumes "ShouldContinue Now rep w = (c, rep', w')"
  shows "\<exists>new. w' = w\<lparr>trace := trace w @ new\<rparr>
     \<and> spaced (progress_period rep) (next_progress_report_time rep) (report_times new)
     \<and> next_progress_report_time rep'
          = next_after (progress_period rep) (next_progress_report_time rep) (report_times new)
     \<and> progress_callback rep' = progress_callback rep
     \<and> progress_period rep' = progress_period rep
     \<and> progress rep' = progress rep
     \<and> due_runs (progress_period rep) (next_progress_report_time rep) new
     \<and> batch_calls new = []
     \<and> length (filter is_now new) = (if progress_callback rep = None then 0 else 1)"
proof (cases "progress_callback rep")
  case None
  then have "rep' = rep" "w' = w" using assms by (simp_all add: ShouldContinue_def)
  then show ?thesis using None by (intro exI[of _ "[]"]) simp
next
  case (Some cb)
  let ?now = "Now (trace w)"
  show ?thesis
  proof (cases "?now < next_progress_report_time rep")
    case True
    then have "rep' = rep" "w' = emit (NowRead ?now) w"
      using assms Some by (simp_all add: ShouldContinue_def Let_def)
    then show ?thesis using True Some
      by (intro exI[of _ "[NowRead ?now]"]) (simp add: emit_def)
  next
    case False
    then have "rep' = rep\<lparr>next_progress_report_time := ?now + progress_period rep\<rparr>"
      "w' = emit (ProgressRun ?now (progress rep) (cb (progress rep))) (emit (NowRead ?now) w)"
      using assms Some by (auto simp: ShouldContinue_def Let_def)
    then show ?thesis using False Some
      by (intro exI[of _ "[NowRead ?now, ProgressRun ?now (progress rep) (cb (progress rep))]"])
         (simp add: emit_def)
  qed
qed

lemma ReportedFlush_done:
  "length (pending_entries w) < kMaxPendingEntriesCount \<Longrightarrow> (force \<Longrightarrow> pending_entries w = [])
     \<Longrightarrow> ReportedFlush Now env force rep w = (Inr True, rep, w)"
  by (subst ReportedFlush.simps) auto

lemma ReportedFlush_step:
  assumes "kMaxPendingEntriesCount \<le> length (pending_entries w) \<or> (force \<and> pending_entries w \<noteq> [])"
    and "batch = take (min (length (pending_entries w)) kMaxPendingEntriesCount) (pending_entries w)"
    and "ab = map (Append env (root_dir w)) batch"
    and "w1 = w\<lparr>pending_entries :=
                 drop (min (length (pending_entries w)) kMaxPendingEntriesCount) (pending_entries w)\<rparr>"
    and "fs = OpenFilesForReading env (trace w1) ab"
    and "w2 = emit (OpenFiles ab fs) w1"
    and "b = FlushBatch env (zip batch (zip ab fs)) w2"
    and "rep1 = rep\<lparr>progress :=
                  count_progress False (drop (length (trace w2)) (trace (snd b))) (progress rep)\<rparr>"
    and "c = ShouldContinue Now rep1 (snd b)"
  shows "ReportedFlush Now env force rep w =
           (if DCHECK_IS_ON env \<and> length fs \<noteq> length batch then (Inl DCheckFailure, rep, w2)
            else if fst b \<noteq> Inr True then (fst b, rep1, snd b)
            else if length batch < length fs then (Inl IndexOutOfRange, rep1, snd b)
            else if \<not> fst c then (Inr False, snd c)
            else ReportedFlush Now env force (fst (snd c)) (snd (snd c)))"
  using assms by (subst ReportedFlush.simps) (simp add: Let_def)

lemma ReportedFlush_trace:
  "ReportedFlush Now env force rep w = (r, rep', w') \<Longrightarrow>
   \<exists>new. trace w' = trace w @ new
     \<and> spaced (progress_period rep) (next_progress_report_time rep) (report_times new)
     \<and> next_progress_report_time rep'
          = next_after (progress_period rep) (next_progress_report_time rep) (report_times new)
     \<and> progress_callback rep' = progress_callback rep
     \<and> progress_period rep' = progress_period rep
     \<and> due_runs (progress_period rep) (next_progress_report_time rep) new
     \<and> (progress_callback rep = None
         \<or> length (filter is_now new) \<le> length (batch_calls new)
           \<and> length (batch_calls new) \<le> length (filter is_now new) + (if r = Inr True then 0 else 1))"
proof (induction "length (pending_entries w)" arbitrary: rep w rule: less_induct)
  case less
  let ?q = "pending_entries w"
  let ?P = "progress_period rep"
  let ?D = "next_progress_report_time rep"
  show ?case
  proof (cases "kMaxPendingEntriesCount \<le> length ?q \<or> (force \<and> ?q \<noteq> [])")
    case False
    then have "ReportedFlush Now env force rep w = (Inr True, rep, w)"
      by (intro ReportedFlush_done) auto
    then have "w' = w" "rep' = rep" "r = Inr True" using less.prems by simp_all
    then show ?thesis by (intro exI[of _ "[]"]) simp
  next
    case True
    define batch where "batch = take (min (length ?q) kMaxPendingEntriesCount) ?q"
    define ab where "ab = map (Append env (root_dir w)) batch"
    define w1 where "w1 = w\<lparr>pending_entries := drop (min (length ?q) kMaxPendingEntriesCount) ?q\<rparr>"
    define fs where "fs = OpenFilesForReading env (trace w1) ab"
    define w2 where "w2 = emit (OpenFiles ab fs) w1"
    define b where "b = FlushBatch env (zip batch (zip ab fs)) w2"
    define rep1 where "rep1 = rep\<lparr>progress :=
        count_progress False (drop (length (trace w2)) (trace (snd b))) (progress rep)\<rparr>"
    define c where "c = ShouldContinue Now rep1 (snd b)"
    note step = ReportedFlush_step[where Now = Now,
        OF True batch_def ab_def w1_def fs_def w2_def b_def rep1_def c_def]
    have lq: "length (drop (min (length ?q) kMaxPendingEntriesCount) ?q) < length ?q"
      using True by (auto simp: kMaxPendingEntriesCount_def)
    obtain nb where nb: "extends w2 nb (snd b)" "list_all is_entry_call nb"
      using FlushBatch_extends[of env "zip batch (zip ab fs)" w2 "fst b" "snd b"]
      unfolding b_def by auto
    let ?n0 = "OpenFiles ab fs # nb"
    have t2: "trace w2 = trace w @ [OpenFiles ab fs]"
      by (simp add: w2_def w1_def emit_def)
    have t3: "trace (snd b) = trace w @ ?n0"
      "pending_entries (snd b) = drop (min (length ?q) kMaxPendingEntriesCount) ?q"
      using nb(1) by (simp_all add: extends_def w2_def w1_def emit_def)
    have r1: "progress_callback rep1 = progress_callback rep"
      "progress_period rep1 = ?P"
      "next_progress_report_time rep1 = ?D"
      by (simp_all add: rep1_def)
    have rt0: "report_times ?n0 = []"
      using entry_calls_no_report[OF nb(2)] by simp
    have nc: "filter is_now ?n0 = []"
      using entry_calls_no_clock[OF nb(2)] by simp
    have bc: "batch_calls ?n0 = [ab]"
      using entry_calls_no_batch[OF nb(2)] by simp
    have d0: "due_runs ?P ?D ?n0"
      by (rule due_runs_no_clock[OF nc])
    have stop: ?thesis if "r \<noteq> Inr True" "rep' = rep1" "w' = snd b"
      using that t3(1) rt0 nc bc d0 r1 by (intro exI[of _ ?n0]) simp
    consider (dcheck) "DCHECK_IS_ON env \<and> length fs \<noteq> length batch"
      | (failed) "\<not> (DCHECK_IS_ON env \<and> length fs \<noteq> length batch)" "fst b \<noteq> Inr True"
      | (range) "\<not> (DCHECK_IS_ON env \<and> length fs \<noteq> length batch)" "fst b = Inr True"
          "length batch < length fs"
      | (go) "\<not> (DCHECK_IS_ON env \<and> length fs \<noteq> length batch)" "fst b = Inr True"
          "\<not> length batch < length fs"
      by blast
    then show ?thesis
    proof cases
      case dcheck
      then have "r = Inl DCheckFailure" "rep' = rep" "w' = w2"
        using step less.prems by (auto split: if_splits)
      then show ?thesis using t2 by (intro exI[of _ "[OpenFiles ab fs]"]) simp
    next
      case failed
      then have "r = fst b" "rep' = rep1" "w' = snd b"
        using step less.prems by (auto split: if_splits)
      then show ?thesis using failed(2) by (intro stop) simp_all
    next
      case range
      then have "r = Inl IndexOutOfRange" "rep' = rep1" "w' = snd b"
        using step less.prems by (auto split: if_splits)
      then show ?thesis by (intro stop) simp_all
    next
      case go
      obtain c0 rep2 w4 where c: "c = (c0, rep2, w4)" by (metis prod.collapse)
      obtain np where np: "w4 = (snd b)\<lparr>trace := trace (snd b) @ np\<rparr>"
        "spaced ?P ?D (report_times np)"
        "next_progress_report_time rep2 = next_after ?P ?D (report_times np)"
        "progress_callback rep2 = progress_callback rep"
        "progress_period rep2 = ?P"
        "due_runs ?P ?D np"
        "batch_calls np = []"
        "length (filter is_now np) = (if progress_callback rep = None then 0 else 1)"
        using ShouldContinue_trace[of Now rep1 "snd b" c0 rep2 w4] c r1
        unfolding c_def by auto
      let ?n1 = "?n0 @ np"
      have t4: "trace w4 = trace w @ ?n1"
        "pending_entries w4 = drop (min (length ?q) kMaxPendingEntriesCount) ?q"
        using np(1) t3 by simp_all
      have rt1: "report_times ?n1 = report_times np"
        using rt0 by simp
      have d1: "due_runs ?P ?D ?n1"
        using due_runs_append[OF d0, of np] np(6) rt0 by simp
      have c1: "progress_callback rep = None
          \<or> length (filter is_now ?n1) = length (batch_calls ?n1)"
        using nc bc np(7,8) by simp
      show ?thesis
      proof (cases c0)
        case False
        then have "r = Inr False" "rep' = rep2" "w' = w4"
          using step less.prems c go by (auto split: if_splits)
        then show ?thesis using t4(1) rt1 np(2-5) d1 c1
          by (intro exI[of _ ?n1]) auto
      next
        case True
        have rec: "ReportedFlush Now env force rep2 w4 = (r, rep', w')"
          using step less.prems c go True by (auto split: if_splits)
        have "length (pending_entries w4) < length ?q" using t4(2) lq by simp
        from less.hyps[OF this rec] obtain n2 where n2:
          "trace w' = trace w4 @ n2"
          "spaced (progress_period rep2) (next_progress_report_time rep2) (report_times n2)"
          "next_progress_report_time rep'
            = next_after (progress_period rep2) (next_progress_report_time rep2) (report_times n2)"
          "progress_callback rep' = progress_callback rep2"
          "progress_period rep' = progress_period rep2"
          "due_runs (progress_period rep2) (next_progress_report_time rep2) n2"
          "progress_callback rep2 = None
            \<or> length (filter is_now n2) \<le> length (batch_calls n2)
              \<and> length (batch_calls n2) \<le> length (filter is_now n2) + (if r = Inr True then 0 else 1)"
          by blast
        have "trace w' = trace w @ (?n1 @ n2)" using n2(1) t4(1) by simp
        moreover have "spaced ?P ?D (report_times (?n1 @ n2))"
          using np(2,3,5) n2(2) rt1 by (simp add: spaced_append)
        moreover have "next_progress_report_time rep' = next_after ?P ?D (report_times (?n1 @ n2))"
          using np(3,5) n2(3) rt1 by (simp add: next_after_append)
        moreover have "due_runs ?P ?D (?n1 @ n2)"
          using due_runs_append[OF d1, of n2] n2(6) np(3,5) rt1 by simp
        moreover have "progress_callback rep = None
            \<or> length (filter is_now (?n1 @ n2)) \<le> length (batch_calls (?n1 @ n2))
              \<and> length (batch_calls (?n1 @ n2))
                  \<le> length (filter is_now (?n1 @ n2)) + (if r = Inr True then 0 else 1)"
          using c1 n2(7) np(4) by auto
        ultimately show ?thesis using np(4,5) n2(4,5) by (intro exI[of _ "?n1 @ n2"]) simp
      qed
    qed
  qed
qed

lemma ReportedFlush_unfold:
  "kMaxPendingEntriesCount \<le> length (pending_entries w) \<or> (force \<and> pending_entries w \<noteq> []) \<Longrightarrow>
   ReportedFlush Now env force rep w =
       (let entry_count = min (length (pending_entries w)) kMaxPendingEntriesCount;
            relative_paths = take entry_count (pending_entries w);
            absolute_paths = map (Append env (root_dir w)) relative_paths;
            w1 = w\<lparr>pending_entries := drop entry_count (pending_entries w)\<rparr>;
            fs = OpenFilesForReading env (trace w1) absolute_paths;
            w2 = emit (OpenFiles absolute_paths fs) w1
        in if DCHECK_IS_ON env \<and> length fs \<noteq> length relative_paths then (Inl DCheckFailure, rep, w2)
           else
             let r = FlushBatch env (zip relative_paths (zip absolute_paths fs)) w2;
                 rep1 = rep\<lparr>progress :=
                          count_progress False (drop (length (trace w2)) (trace (snd r))) (progress rep)\<rparr>
             in if fst r \<noteq> Inr True then (fst r, rep1, snd r)
                else if length relative_paths < length fs then (Inl IndexOutOfRange, rep1, snd r)
                else
                  let c = ShouldContinue Now rep1 (snd r)
                  in if \<not> fst c then (Inr False, snd c)
                     else ReportedFlush Now env force (fst (snd c)) (snd (snd c)))"
  by (subst ReportedFlush.simps) (simp only: if_True)

lemma ReportedFlushIfNeeded_loop:
  "ReportedFlushIfNeeded Now env force rep w =
     (case ReportedFlush Now env force rep w of
        (Inl e, rep1, w1) \<Rightarrow> (Inl e, rep1, w1)
      | (Inr ok, rep1, w1) \<Rightarrow>
          if force \<or> \<not> ok then (Inr ok, rep1, FinalReport Now rep1 w1)
          else (Inr ok, rep1, w1))"
  by (auto simp: ReportedFlushIfNeeded_def ReportedFlush_done)

lemmas report_simps = ReportedWriteEntries_def ReportedAddEntries_def ReportedClose_def
  ReportedFlushIfNeeded_loop ReportedFlush_unfold ReportedFlush_done ShouldContinue_def
  FinalReport_def SetProgressCallback_def demo_reporter_def demo_clock_def

lemma ReportedFlushIfNeeded_trace:
  assumes "ReportedFlushIfNeeded Now env force rep w = (Inr ok, rep', w')"
    and "progress_callback rep = Some cb"
  shows "\<exists>periodic. trace w' = trace w @ periodic
            @ (if force \<or> \<not> ok
               then [ProgressRun (Now (trace w @ periodic)) (progress rep') (cb (progress rep'))]
               else [])
     \<and> spaced (progress_period rep) (next_progress_report_time rep) (report_times periodic)
     \<and> next_progress_report_time rep'
          = next_after (progress_period rep) (next_progress_report_time rep) (report_times periodic)
     \<and> progress_callback rep' = Some cb
     \<and> progress_period rep' = progress_period rep
     \<and> due_runs (progress_period rep) (next_progress_report_time rep) periodic
     \<and> length (filter is_now periodic) \<le> length (batch_calls periodic)
     \<and> length (batch_calls periodic) \<le> length (filter is_now periodic) + (if ok then 0 else 1)"
proof -
  obtain r1 rep1 w1 where f: "ReportedFlush Now env force rep w = (r1, rep1, w1)"
    by (metis prod.collapse)
  have r: "r1 = Inr ok" "rep' = rep1"
    using assms(1) f by (auto simp: ReportedFlushIfNeeded_loop split: sum.splits if_splits)
  obtain new where n: "trace w1 = trace w @ new"
    "spaced (progress_period rep) (next_progress_report_time rep) (report_times new)"
    "next_progress_report_time rep1
          = next_after (progress_period rep) (next_progress_report_time rep) (report_times new)"
    "progress_callback rep1 = progress_callback rep"
    "progress_period rep1 = progress_period rep"
    "due_runs (progress_period rep) (next_progress_report_time rep) new"
    "progress_callback rep = None
       \<or> length (filter is_now new) \<le> length (batch_calls new)
         \<and> length (batch_calls new) \<le> length (filter is_now new) + (if r1 = Inr True then 0 else 1)"
    using ReportedFlush_trace[OF f] by blast
  have cb: "progress_callback rep1 = Some cb" using n(4) assms(2) by simp
  have "trace w' = trace w @ new
            @ (if force \<or> \<not> ok
               then [ProgressRun (Now (trace w @ new)) (progress rep') (cb (progress rep'))]
               else [])"
  proof (cases "force \<or> \<not> ok")
    case True
    then have "w' = FinalReport Now rep1 w1"
      using assms(1) f r(1) by (auto simp: ReportedFlushIfNeeded_loop)
    then show ?thesis using True cb n(1) r(2) by (simp add: FinalReport_def emit_def)
  next
    case False
    then have "w' = w1" using assms(1) f r(1) by (auto simp: ReportedFlushIfNeeded_loop)
    then show ?thesis using False n(1) by simp
  qed
  moreover have "length (filter is_now new) \<le> length (batch_calls new)"
    "length (batch_calls new) \<le> length (filter is_now new) + (if ok then 0 else 1)"
    using n(7) assms(2) r(1) by auto
  ultimately show ?thesis using n(2,3,5,6) cb r(2) by blast
qed

section \<open>The claims\<close>

text \<open>
  Claim C1, amended. Take a writer with an empty queue and a run of \<open>AddEntries\<close> or of
  \<open>WriteEntries\<close> that returns success, in which every answer of the FileAccessor had one
  file for each path (a build with \<open>DCHECK\<close>s asserts this). Then the codec open-entry calls
  of the run are those for a prefix of the submitted paths, one call for each path, in
  submission order, each name with the trailing slash when the file of its path did not
  open. The rest of the submitted paths, fewer than 50, is still pending; after
  \<open>WriteEntries\<close> nothing is pending, so the number of open-entry calls is the number of
  submitted paths. The paths handed to the FileAccessor, batch after batch, are that
  prefix below the root, in order, and no batch (one \<open>OpenFilesForReading\<close> call) holds more
  than 50 paths.
\<close>

theorem submitted_paths_are_opened_in_order:
  assumes "pending_entries w = []"
    and "AddEntries env paths w = (Inr True, w') \<or> WriteEntries env paths w = (Inr True, w')"
    and "trace w' = trace w @ new"
    and "DCHECK_IS_ON env \<or> list_all slots_match new"
  shows "\<exists>n. pending_entries w' = drop n paths \<and> n \<le> length paths
     \<and> length (pending_entries w') < 50
     \<and> length (entry_names new) = n \<and> length (batch_files new) = n
     \<and> entry_names new = expected_names env (take n paths) (batch_files new)
     \<and> concat (batch_calls new) = map (Append env (root_dir w)) (take n paths)
     \<and> (\<forall>b \<in> set (batch_calls new). length b \<le> 50)
     \<and> (WriteEntries env paths w = (Inr True, w') \<longrightarrow> n = length paths)"
proof (cases "WriteEntries env paths w = (Inr True, w')")
  case True
  have "pending_entries w' = []
     \<and> length (entry_names new) = length paths \<and> length (batch_files new) = length paths
     \<and> entry_names new = expected_names env paths (batch_files new)
     \<and> concat (batch_calls new) = map (Append env (root_dir w)) paths
     \<and> (\<forall>b \<in> set (batch_calls new). length b \<le> 50)"
    by (rule WriteEntries_opens_every_path[OF assms(1) True assms(3,4)])
  then show ?thesis by (intro exI[of _ "length paths"]) (auto simp: expected_names_def)
next
  case False
  then have "AddEntries env paths w = (Inr True, w')" using assms(2) by simp
  from AddEntries_opens_a_prefix[OF assms(1) this assms(3,4)] False show ?thesis by blast
qed

text \<open>
  Claim C1 as stated fails in two ways. \<open>AddEntries\<close> of a single file returns success
  without any open-entry call: the path waits in the queue. And in a build without
  \<open>DCHECK\<close>s, when the FileAccessor answers one file for two paths, \<open>WriteEntries\<close> returns
  success after one open-entry call.
\<close>

theorem open_entry_count_counterexample:
  "fst (AddEntries demo_env [''a''] demo_writer) = Inr True
   \<and> entry_names (trace (snd (AddEntries demo_env [''a''] demo_writer))) = []
   \<and> pending_entries (snd (AddEntries demo_env [''a''] demo_writer)) = [''a'']
   \<and> fst (WriteEntries demo_short_env [''a'', ''b''] demo_writer) = Inr True
   \<and> entry_names (trace (snd (WriteEntries demo_short_env [''a'', ''b''] demo_writer))) = [''a'']
   \<and> length (entry_names (trace (snd (WriteEntries demo_short_env [''a'', ''b''] demo_writer))))
       \<noteq> length [''a'', ''b'']"
  by (simp add: run_simps demo_short_env_def)

text \<open>
  Claim C1, amended, at 51 paths, a directory and fifty files, in a build without
  \<open>DCHECK\<close>s: \<open>AddEntries\<close> and \<open>WriteEntries\<close> both succeed.
\<close>

theorem submitted_paths_are_opened_in_order_witness:
  "pending_entries demo_writer = []
   \<and> fst (AddEntries demo_env (''d'' # replicate 50 ''a'') demo_writer) = Inr True
   \<and> (\<exists>n. pending_entries (snd (AddEntries demo_env (''d'' # replicate 50 ''a'') demo_writer))
             = drop n (''d'' # replicate 50 ''a'')
        \<and> length (pending_entries (snd (AddEntries demo_env (''d'' # replicate 50 ''a'') demo_writer))) < 50
        \<and> length (entry_names (trace (snd (AddEntries demo_env (''d'' # replicate 50 ''a'') demo_writer)))) = n)
   \<and> fst (WriteEntries demo_env (''d'' # replicate 50 ''a'') demo_writer) = Inr True
   \<and> length (entry_names (trace (snd (WriteEntries demo_env (''d'' # replicate 50 ''a'') demo_writer))))
       = length (''d'' # replicate 50 ''a'')"
proof -
  let ?paths = "''d'' # replicate 50 ''a''"
  let ?add = "AddEntries demo_env ?paths demo_writer"
  let ?run = "WriteEntries demo_env ?paths demo_writer"
  have p: "pending_entries demo_writer = []" and t: "trace demo_writer = []"
    by (simp_all add: demo_writer_def ZipWriter_def)
  have acc: "\<forall>tr ps. length (OpenFilesForReading demo_env tr ps) = length ps"
    by (simp add: demo_env_def)
  have ta: "trace (snd ?add) = trace demo_writer @ trace (snd ?add)"
    and tr: "trace (snd ?run) = trace demo_writer @ trace (snd ?run)"
    by (simp_all add: t)
  have a: "?add = (Inr True, snd ?add)" using demo_add_51 by (metis prod.collapse)
  have r: "?run = (Inr True, snd ?run)" using demo_run_51 by (metis prod.collapse)
  have sa: "DCHECK_IS_ON demo_env \<or> list_all slots_match (trace (snd ?add))"
    using AddEntries_slots_match[OF acc a ta] by simp
  have sr: "DCHECK_IS_ON demo_env \<or> list_all slots_match (trace (snd ?run))"
    using WriteEntries_slots_match[OF acc r tr] by simp
  from submitted_paths_are_opened_in_order[OF p disjI1[OF a] ta sa]
  have 1: "\<exists>n. pending_entries (snd ?add) = drop n ?paths
        \<and> length (pending_entries (snd ?add)) < 50
        \<and> length (entry_names (trace (snd ?add))) = n"
    by blast
  from submitted_paths_are_opened_in_order[OF p disjI2[OF r] tr sr] r
  have 2: "length (entry_names (trace (snd ?run))) = length ?paths"
    by auto
  show ?thesis using p demo_add_51 demo_run_51 1 2 by blast
qed

text \<open>
  Claim C2. Extraction of an archive that holds an unsafe entry returns failure, and what
  it has done to the outside by then is exactly what extraction of the entries before the
  unsafe one does: nothing is created or written for the unsafe entry or any later one,
  and what was created for the earlier entries stays (extraction has no step that removes
  anything).
\<close>

theorem unsafe_entry_aborts_extraction:
  assumes "is_unsafe e"
  shows "UnzipWithFilterAndWriters env (Some (pre @ e # post)) lg
           = (False, snd (UnzipWithFilterAndWriters env (Some pre) lg))"
  using assms by (simp add: UnzipWithFilterAndWriters_def UnzipEntries_unsafe)

text \<open>
  Claim C2 at an archive of a directory, a file, an unsafe entry and one more file: the
  directory and the first file are extracted, the rest is not.
\<close>

theorem unsafe_entry_aborts_extraction_witness:
  "is_unsafe (demo_entry ''../evil'' True False)
   \<and> UnzipWithFilterAndWriters demo_unzip_env
        (Some ([demo_entry ''dir/'' False True, demo_entry ''dir/a.txt'' False False]
               @ demo_entry ''../evil'' True False # [demo_entry ''b.txt'' False False])) True
      = (False, [DirectoryCreatorRun ''dir/'' True, WriterFactoryRun ''dir/a.txt'',
                 ExtractCurrentEntryRun ''dir/a.txt'' True])"
proof -
  have u: "is_unsafe (demo_entry ''../evil'' True False)" by (simp add: demo_entry_def)
  have "snd (UnzipWithFilterAndWriters demo_unzip_env
          (Some [demo_entry ''dir/'' False True, demo_entry ''dir/a.txt'' False False]) True)
      = [DirectoryCreatorRun ''dir/'' True, WriterFactoryRun ''dir/a.txt'',
         ExtractCurrentEntryRun ''dir/a.txt'' True]"
    by (simp add: UnzipWithFilterAndWriters_def UnzipEntry_def Let_def demo_unzip_env_def demo_entry_def)
  with unsafe_entry_aborts_extraction[OF u, of demo_unzip_env
      "[demo_entry ''dir/'' False True, demo_entry ''dir/a.txt'' False False]"
      "[demo_entry ''b.txt'' False False]" True] u
  show ?thesis by simp
qed

text \<open>
  Claim C3, amended. A flush of a queue of exactly 50 paths issues exactly one batch, of
  all 50, and empties the queue. A flush of a queue of 51 paths that is not forced issues
  exactly one batch, of the first 50 paths, and leaves the last path pending. A forced
  flush of 51 paths that succeeds issues two batches, the first 50 paths and then the
  last one, and empties the queue.
\<close>

theorem flush_at_the_threshold:
  assumes "FlushEntriesIfNeeded env force w = (r, w')" and "trace w' = trace w @ new"
  shows "(length (pending_entries w) = 50 \<longrightarrow>
            batch_calls new = [map (Append env (root_dir w)) (pending_entries w)]
            \<and> pending_entries w' = [])
    \<and> (length (pending_entries w) = 51 \<and> \<not> force \<longrightarrow>
            batch_calls new = [map (Append env (root_dir w)) (take 50 (pending_entries w))]
            \<and> pending_entries w' = drop 50 (pending_entries w))
    \<and> (length (pending_entries w) = 51 \<and> force \<and> r = Inr True \<longrightarrow>
            batch_calls new = [map (Append env (root_dir w)) (take 50 (pending_entries w)),
                               map (Append env (root_dir w)) (drop 50 (pending_entries w))]
            \<and> pending_entries w' = [])"
  by (rule flush_threshold_cases[OF assms])

text \<open>
  Claim C3 as stated fails: with 51 files pending, the flush that is not forced does not
  leave the queue as it is. It writes a batch of 50 and leaves one path pending.
\<close>

theorem flush_51_unforced_counterexample:
  "length (pending_entries (demo_queue (replicate 51 ''a''))) = 51
   \<and> fst (FlushEntriesIfNeeded demo_env False (demo_queue (replicate 51 ''a''))) = Inr True
   \<and> map length (batch_calls (trace (snd (FlushEntriesIfNeeded demo_env False (demo_queue (replicate 51 ''a'')))))) = [50]
   \<and> pending_entries (snd (FlushEntriesIfNeeded demo_env False (demo_queue (replicate 51 ''a'')))) = [''a'']
   \<and> \<not> (batch_calls (trace (snd (FlushEntriesIfNeeded demo_env False (demo_queue (replicate 51 ''a''))))) = []
        \<and> pending_entries (snd (FlushEntriesIfNeeded demo_env False (demo_queue (replicate 51 ''a''))))
            = pending_entries (demo_queue (replicate 51 ''a'')))"
  by (simp add: queue_simps)

text \<open>Claim C3, amended, at queues of 50 and of 51 files.\<close>

theorem flush_at_the_threshold_witness:
  "(batch_calls (trace (snd (FlushEntriesIfNeeded demo_env False (demo_queue (replicate 50 ''a'')))))
      = [replicate 50 ''/r/a'']
    \<and> pending_entries (snd (FlushEntriesIfNeeded demo_env False (demo_queue (replicate 50 ''a'')))) = [])
   \<and> (batch_calls (trace (snd (FlushEntriesIfNeeded demo_env False (demo_queue (replicate 51 ''a'')))))
      = [replicate 50 ''/r/a'']
    \<and> pending_entries (snd (FlushEntriesIfNeeded demo_env False (demo_queue (replicate 51 ''a'')))) = [''a''])
   \<and> (fst (FlushEntriesIfNeeded demo_env True (demo_queue (replicate 51 ''a''))) = Inr True
    \<and> batch_calls (trace (snd (FlushEntriesIfNeeded demo_env True (demo_queue (replicate 51 ''a'')))))
      = [replicate 50 ''/r/a'', [''/r/a'']]
    \<and> pending_entries (snd (FlushEntriesIfNeeded demo_env True (demo_queue (replicate 51 ''a'')))) = [])"
proof -
  have q: "trace (demo_queue p) = []" "pending_entries (demo_queue p) = p"
    "root_dir (demo_queue p) = ''/r''" "Append demo_env = (\<lambda>a b. a @ ''/'' @ b)" for p
    by (simp_all add: demo_queue_def demo_writer_def ZipWriter_def demo_env_def)
  have t: "trace (snd (FlushEntriesIfNeeded demo_env f (demo_queue p)))
      = trace (demo_queue p) @ trace (snd (FlushEntriesIfNeeded demo_env f (demo_queue p)))" for f p
    by (simp add: q)
  have r: "replicate 51 ''a'' = replicate 50 ''a'' @ [''a'']"
    using replicate_add[of 50 1 "''a''"] by simp
  note th = flush_at_the_threshold[OF prod.collapse[symmetric]]
  have 1: "batch_calls (trace (snd (FlushEntriesIfNeeded demo_env False (demo_queue (replicate 50 ''a'')))))
      = [replicate 50 ''/r/a'']
    \<and> pending_entries (snd (FlushEntriesIfNeeded demo_env False (demo_queue (replicate 50 ''a'')))) = []"
    using th[OF t[of False "replicate 50 ''a''"]] by (simp add: q)
  have 2: "batch_calls (trace (snd (FlushEntriesIfNeeded demo_env False (demo_queue (replicate 51 ''a'')))))
      = [replicate 50 ''/r/a'']
    \<and> pending_entries (snd (FlushEntriesIfNeeded demo_env False (demo_queue (replicate 51 ''a'')))) = [''a'']"
    using th[OF t[of False "replicate 51 ''a''"]] by (simp add: q r)
  have 3: "batch_calls (trace (snd (FlushEntriesIfNeeded demo_env True (demo_queue (replicate 51 ''a'')))))
      = [replicate 50 ''/r/a'', [''/r/a'']]
    \<and> pending_entries (snd (FlushEntriesIfNeeded demo_env True (demo_queue (replicate 51 ''a'')))) = []"
    using th[OF t[of True "replicate 51 ''a''"]] demo_flush_51_forced by (simp add: q r)
  show ?thesis using 1 2 3 demo_flush_51_forced by blast
qed

text \<open>
  Claim C4, of the reporting writer modelled from the spec. When a callback has been set
  with \<open>SetProgressCallback\<close> and \<open>WriteEntries\<close> returns, the calls it issued are: the calls
  of the flushes, with the periodic runs of the callback among them; then one final run of
  the callback, with the final counters, whether the operation succeeded or not; and after
  it nothing but the call that closes the archive, when the flushes succeeded. Of the
  periodic runs: the clock is read after every batch that is written (so once for every
  batch, but for a last batch that fails); a reading at which a report is due is followed
  at once by a run of the callback; and the readings at which the callback ran keep the
  configured period (the first is not before the first report is due, each later one is
  at least one period after the one before).
\<close>

theorem progress_callback_periodic_and_final:
  assumes "rep = SetProgressCallback cb period rep0"
    and "ReportedWriteEntries Now env paths rep w = (Inr ok, rep', w')"
    and "trace w' = trace w @ new"
  shows "\<exists>periodic t post.
       new = periodic @ ProgressRun t (progress rep') (cb (progress rep')) # post
     \<and> (post = [] \<or> post = [CloseZip ok])
     \<and> spaced period (next_progress_report_time rep0) (report_times periodic)
     \<and> due_runs period (next_progress_report_time rep0) periodic
     \<and> length (filter is_now periodic) \<le> length (batch_calls periodic)
     \<and> length (batch_calls periodic) \<le> length (filter is_now periodic) + (if ok then 0 else 1)"
proof -
  let ?w0 = "w\<lparr>pending_entries := pending_entries w @ paths\<rparr>"
  have cb: "progress_callback rep = Some cb" and pd: "progress_period rep = period"
    and nx: "next_progress_report_time rep = next_progress_report_time rep0"
    using assms(1) by (simp_all add: SetProgressCallback_def)
  obtain rA repA wA where A0: "ReportedAddEntries Now env paths rep w = (rA, repA, wA)"
    by (metis prod.collapse)
  consider (abort) e where "rA = Inl e" | (failed) "rA = Inr False" | (added) "rA = Inr True"
    by (cases rA) auto
  then show ?thesis
  proof cases
    case abort
    then show ?thesis using assms(2) A0 by (simp add: ReportedWriteEntries_def)
  next
    case failed
    then have A: "ReportedFlushIfNeeded Now env False rep ?w0 = (Inr False, repA, wA)"
      using A0 by (auto simp: ReportedAddEntries_def split: if_splits)
    have res: "ok = False" "rep' = repA" "w' = wA"
      using assms(2) A0 failed by (simp_all add: ReportedWriteEntries_def)
    obtain p1 where p1: "trace wA = trace ?w0 @ p1
            @ (if False \<or> \<not> False
               then [ProgressRun (Now (trace ?w0 @ p1)) (progress repA) (cb (progress repA))]
               else [])"
      "spaced (progress_period rep) (next_progress_report_time rep) (report_times p1)"
      "due_runs (progress_period rep) (next_progress_report_time rep) p1"
      "length (filter is_now p1) \<le> length (batch_calls p1)"
      "length (batch_calls p1) \<le> length (filter is_now p1) + (if False then 0 else 1)"
      using ReportedFlushIfNeeded_trace[OF A cb] by blast
    have "new = p1 @ ProgressRun (Now (trace w @ p1)) (progress rep') (cb (progress rep')) # []"
      using p1(1) res assms(3) by simp
    moreover have "spaced period (next_progress_report_time rep0) (report_times p1)"
      using p1(2) pd nx by simp
    moreover have "due_runs period (next_progress_report_time rep0) p1"
      using p1(3) pd nx by simp
    ultimately show ?thesis using p1(4,5) res(1)
      by (intro exI[of _ p1] exI[of _ "Now (trace w @ p1)"] exI[of _ "[]"]) simp
  next
    case added
    then have A: "ReportedFlushIfNeeded Now env False rep ?w0 = (Inr True, repA, wA)"
      using A0 by (auto simp: ReportedAddEntries_def split: if_splits)
    obtain p1 where p1: "trace wA = trace ?w0 @ p1 @ (if False \<or> \<not> True then
          [ProgressRun (Now (trace ?w0 @ p1)) (progress repA) (cb (progress repA))] else [])"
      "spaced (progress_period rep) (next_progress_report_time rep) (report_times p1)"
      "next_progress_report_time repA
          = next_after (progress_period rep) (next_progress_report_time rep) (report_times p1)"
      "progress_callback repA = Some cb"
      "progress_period repA = progress_period rep"
      "due_runs (progress_period rep) (next_progress_report_time rep) p1"
      "length (filter is_now p1) \<le> length (batch_calls p1)"
      "length (batch_calls p1) \<le> length (filter is_now p1) + (if True then 0 else 1)"
      using ReportedFlushIfNeeded_trace[OF A cb] by blast
    have tA: "trace wA = trace w @ p1" using p1(1) by simp
    obtain rB repB wB where B: "ReportedFlushIfNeeded Now env True repA wA = (rB, repB, wB)"
      by (metis prod.collapse)
    consider (abort2) e where "rB = Inl e" | (finished) b where "rB = Inr b"
      by (cases rB) auto
    then show ?thesis
    proof cases
      case abort2
      then show ?thesis using assms(2) A0 added B
        by (simp add: ReportedWriteEntries_def ReportedClose_def)
    next
      case finished
      obtain p2 where p2: "trace wB = trace wA @ p2 @ (if True \<or> \<not> b then
            [ProgressRun (Now (trace wA @ p2)) (progress repB) (cb (progress repB))] else [])"
        "spaced (progress_period repA) (next_progress_report_time repA) (report_times p2)"
        "due_runs (progress_period repA) (next_progress_report_time repA) p2"
        "length (filter is_now p2) \<le> length (batch_calls p2)"
        "length (batch_calls p2) \<le> length (filter is_now p2) + (if b then 0 else 1)"
        using ReportedFlushIfNeeded_trace[OF B[unfolded finished] p1(4)] by blast
      have sp: "spaced period (next_progress_report_time rep0) (report_times (p1 @ p2))"
        using p1(2,3,5) p2(2) pd nx by (simp add: spaced_append)
      have du: "due_runs period (next_progress_report_time rep0) (p1 @ p2)"
        using due_runs_append[OF p1(6), of p2] p2(3) p1(3,5) pd nx by simp
      have c1: "length (filter is_now (p1 @ p2)) \<le> length (batch_calls (p1 @ p2))"
        using p1(7) p2(4) by simp
      have c2: "length (batch_calls (p1 @ p2))
            \<le> length (filter is_now (p1 @ p2)) + (if b then 0 else 1)"
        using p1(8) p2(5) by simp
      have tB: "trace wB = trace w @ (p1 @ p2)
                  @ [ProgressRun (Now (trace wA @ p2)) (progress repB) (cb (progress repB))]"
        using p2(1) tA by simp
      show ?thesis
      proof (cases b)
        case True
        then have res: "ok = zipClose env (trace wB)" "rep' = repB"
          "trace w' = trace wB @ [CloseZip (zipClose env (trace wB))]"
          using assms(2) A0 added B finished
          by (auto simp: ReportedWriteEntries_def ReportedClose_def Let_def emit_def)
        then have "new = (p1 @ p2)
              @ ProgressRun (Now (trace wA @ p2)) (progress rep') (cb (progress rep')) # [CloseZip ok]"
          using tB assms(3) by simp
        moreover have "length (batch_calls (p1 @ p2))
            \<le> length (filter is_now (p1 @ p2)) + (if ok then 0 else 1)"
          using c2 True by simp
        ultimately show ?thesis using sp du c1
          by (intro exI[of _ "p1 @ p2"] exI[of _ "Now (trace wA @ p2)"] exI[of _ "[CloseZip ok]"]) simp
      next
        case False
        then have res: "ok = False" "rep' = repB" "trace w' = trace wB"
          using assms(2) A0 added B finished
          by (auto simp: ReportedWriteEntries_def ReportedClose_def)
        then have "new = (p1 @ p2)
              @ ProgressRun (Now (trace wA @ p2)) (progress rep') (cb (progress rep')) # []"
          using tB assms(3) by simp
        moreover have "length (batch_calls (p1 @ p2))
            \<le> length (filter is_now (p1 @ p2)) + (if ok then 0 else 1)"
          using c2 False res(1) by simp
        ultimately show ?thesis using sp du c1
          by (intro exI[of _ "p1 @ p2"] exI[of _ "Now (trace wA @ p2)"] exI[of _ "[]"]) simp
      qed
    qed
  qed
qed

text \<open>
  Claim C4 at a directory and a file, with a period of 3 ticks. The eight calls of the one
  batch are followed by one reading of the clock, at tick 8; the report is due and the
  callback runs; the final report is at tick 10, then the archive is closed. With a
  callback that answers not to continue, the operation fails after the periodic report,
  and the final report is made all the same.
\<close>

theorem progress_callback_periodic_and_final_witness:
  "fst (ReportedWriteEntries demo_clock demo_env [''d'', ''a'']
          (SetProgressCallback (\<lambda>p. True) 3 demo_reporter) demo_writer) = Inr True
   \<and> drop 8 (trace (snd (snd (ReportedWriteEntries demo_clock demo_env [''d'', ''a'']
          (SetProgressCallback (\<lambda>p. True) 3 demo_reporter) demo_writer))))
        = [NowRead 8, ProgressRun 8 \<lparr>bytes = 5, files = 1, directories = 1\<rparr> True,
           ProgressRun 10 \<lparr>bytes = 5, files = 1, directories = 1\<rparr> True, CloseZip True]
   \<and> progress (fst (snd (ReportedWriteEntries demo_clock demo_env [''d'', ''a'']
          (SetProgressCallback (\<lambda>p. True) 3 demo_reporter) demo_writer)))
        = \<lparr>bytes = 5, files = 1, directories = 1\<rparr>
   \<and> (\<exists>periodic t post.
         trace (snd (snd (ReportedWriteEntries demo_clock demo_env [''d'', ''a'']
            (SetProgressCallback (\<lambda>p. True) 3 demo_reporter) demo_writer)))
           = periodic @ ProgressRun t \<lparr>bytes = 5, files = 1, directories = 1\<rparr> True # post
       \<and> (post = [] \<or> post = [CloseZip True])
       \<and> spaced 3 0 (report_times periodic)
       \<and> due_runs 3 0 periodic
       \<and> length (filter is_now periodic) \<le> length (batch_calls periodic)
       \<and> length (batch_calls periodic) \<le> length (filter is_now periodic))
   \<and> fst (ReportedWriteEntries demo_clock demo_env [''d'', ''a'']
          (SetProgressCallback (\<lambda>p. False) 3 demo_reporter) demo_writer) = Inr False
   \<and> drop 8 (trace (snd (snd (ReportedWriteEntries demo_clock demo_env [''d'', ''a'']
          (SetProgressCallback (\<lambda>p. False) 3 demo_reporter) demo_writer))))
        = [NowRead 8, ProgressRun 8 \<lparr>bytes = 5, files = 1, directories = 1\<rparr> False,
           ProgressRun 10 \<lparr>bytes = 5, files = 1, directories = 1\<rparr> False]"
proof -
  let ?rep = "SetProgressCallback (\<lambda>p. True) 3 demo_reporter"
  let ?run = "ReportedWriteEntries demo_clock demo_env [''d'', ''a''] ?rep demo_writer"
  let ?stop = "ReportedWriteEntries demo_clock demo_env [''d'', ''a'']
      (SetProgressCallback (\<lambda>p. False) 3 demo_reporter) demo_writer"
  have r: "fst ?run = Inr True" by (simp add: report_simps run_simps)
  have c: "drop 8 (trace (snd (snd ?run)))
        = [NowRead 8, ProgressRun 8 \<lparr>bytes = 5, files = 1, directories = 1\<rparr> True,
           ProgressRun 10 \<lparr>bytes = 5, files = 1, directories = 1\<rparr> True, CloseZip True]"
    by (simp add: report_simps run_simps)
  have p: "progress (fst (snd ?run)) = \<lparr>bytes = 5, files = 1, directories = 1\<rparr>"
    by (simp add: report_simps run_simps)
  have s: "fst ?stop = Inr False" by (simp add: report_simps run_simps)
  have sc: "drop 8 (trace (snd (snd ?stop)))
        = [NowRead 8, ProgressRun 8 \<lparr>bytes = 5, files = 1, directories = 1\<rparr> False,
           ProgressRun 10 \<lparr>bytes = 5, files = 1, directories = 1\<rparr> False]"
    by (simp add: report_simps run_simps)
  have e: "?run = (Inr True, fst (snd ?run), snd (snd ?run))"
    using r by (metis prod.collapse)
  have w: "trace (snd (snd ?run)) = trace demo_writer @ trace (snd (snd ?run))"
    by (simp add: demo_writer_def ZipWriter_def)
  have n: "next_progress_report_time demo_reporter = 0" by (simp add: demo_reporter_def)
  from progress_callback_periodic_and_final[OF refl e w]
  have "\<exists>periodic t post.
         trace (snd (snd ?run))
           = periodic @ ProgressRun t (progress (fst (snd ?run))) True # post
       \<and> (post = [] \<or> post = [CloseZip True])
       \<and> spaced 3 (next_progress_report_time demo_reporter) (report_times periodic)
       \<and> due_runs 3 (next_progress_report_time demo_reporter) periodic
       \<and> length (filter is_now periodic) \<le> length (batch_calls periodic)
       \<and> length (batch_calls periodic) \<le> length (filter is_now periodic)"
    by simp
  then show ?thesis using r c p n s sc by simp
qed



text \<open>
  Claim C6. When no file list is given and the traversal returns, the directories it
  listed are the root followed by the kept subdirectories of the listed directories, in
  the order in which they were found (breadth first). The entries are, for each listed
  directory in that order, its kept files and then its kept subdirectories, each recorded
  once for each time it is listed. No entry fails the exclusion test, and every listed
  directory other than the root passes the test and is itself an entry: an excluded
  directory is neither recorded nor descended into.
\<close>

theorem Zip_gathers_breadth_first:
  assumes "src_files params = []" and "Zip_files_to_add env params = Some all_files"
  shows "\<exists>visited. visited = [] # concat (map (kept_dirs env params) visited)
     \<and> all_files = concat (map (\<lambda>dir. kept_files env params dir @ kept_dirs env params dir) visited)
     \<and> (\<forall>path \<in> set all_files. \<not> exclude env params path)
     \<and> (\<forall>dir \<in> set (tl visited). \<not> exclude env params dir \<and> dir \<in> set all_files)"
proof -
  have "Zip_bfs env params [[]] [] = Some all_files"
    using assms by (simp add: Zip_files_to_add_def)
  from Zip_bfs_order[OF this] obtain visited where v:
    "[[]] @ concat (map (kept_dirs env params) visited) = visited"
    "all_files = [] @ concat (map (\<lambda>dir. kept_files env params dir @ kept_dirs env params dir) visited)"
    by blast
  have 1: "visited = [] # concat (map (kept_dirs env params) visited)" using v(1) by simp
  have 2: "all_files = concat (map (\<lambda>dir. kept_files env params dir @ kept_dirs env params dir) visited)"
    using v(2) by simp
  have 3: "\<forall>path \<in> set all_files. \<not> exclude env params path"
    unfolding 2 by (auto simp: kept_files_def kept_dirs_def)
  have t: "tl visited = concat (map (kept_dirs env params) visited)"
    using 1 by (metis list.sel(3))
  have 4: "\<forall>dir \<in> set (tl visited). \<not> exclude env params dir \<and> dir \<in> set all_files"
  proof
    fix dir assume "dir \<in> set (tl visited)"
    then obtain d where d: "d \<in> set visited" "dir \<in> set (kept_dirs env params d)"
      unfolding t by auto
    then have "dir \<in> set all_files" unfolding 2 by auto
    then show "\<not> exclude env params dir \<and> dir \<in> set all_files"
      using d(2) by (simp add: kept_dirs_def)
  qed
  show ?thesis using 1 2 3 4 by blast
qed

text \<open>
  Claim C6 at the small tree, hidden files not included: the hidden file, the hidden
  directory and what is below it are left out.
\<close>

theorem Zip_gathers_breadth_first_witness:
  "src_files demo_params = []
   \<and> Zip_files_to_add demo_zip_env demo_params
       = Some [''a.txt'', ''sub'', ''sub/c.txt'', ''sub/deep'', ''sub/deep/y'']
   \<and> (\<exists>visited. visited = [] # concat (map (kept_dirs demo_zip_env demo_params) visited)
       \<and> [''a.txt'', ''sub'', ''sub/c.txt'', ''sub/deep'', ''sub/deep/y'']
           = concat (map (\<lambda>dir. kept_files demo_zip_env demo_params dir
                                 @ kept_dirs demo_zip_env demo_params dir) visited))"
proof -
  have s: "src_files demo_params = []" by (simp add: demo_params_def)
  from Zip_gathers_breadth_first[OF s demo_gather] s demo_gather show ?thesis by blast
qed

text \<open>
  Claim C7. \<open>OpenNewFileEntry\<close> issues exactly one codec open-entry call. The name it
  hands over is the path with every separator of the host (\<open>kSeparators\<close>) replaced by a
  forward slash and every other character unchanged, followed by a slash when the entry
  is a directory.
\<close>

theorem OpenNewFileEntry_normalizes_path:
  assumes "OpenNewFileEntry env path dir t w = (r, w')"
  shows "\<exists>s. trace w' = trace w @ [OpenEntry s t r]
    \<and> s = map (\<lambda>c. if c \<in> set (kSeparators (OS_WIN env)) then CHR ''/'' else c) (AsUTF8Unsafe env path)
          @ (if dir then ''/'' else [])"
proof -
  have "trace w' = trace w @ [OpenEntry (str_path env path dir) t r]"
    using OpenNewFileEntry_extends[OF assms] by (simp add: extends_def)
  moreover have "map (\<lambda>c. if c \<in> set (kSeparators False) then CHR ''/'' else c) s = s" for s
    by (induction s) (simp_all add: kSeparators_def)
  moreover have "map (\<lambda>c. if c \<in> set (kSeparators True) then CHR ''/'' else c) s
       = map (\<lambda>c. if c = CHR 0x5C then CHR ''/'' else c) s" for s
    by (induction s) (simp_all add: kSeparators_def)
  ultimately show ?thesis by (cases "OS_WIN env") (simp_all add: str_path_def Let_def)
qed

text \<open>Claim C7 on Windows, at the directory \<open>a\b\<close>.\<close>

theorem OpenNewFileEntry_normalizes_path_witness:
  "OpenNewFileEntry (demo_env\<lparr>OS_WIN := True\<rparr>) [CHR ''a'', CHR 0x5C, CHR ''b''] True 7 demo_writer
     = (True, snd (OpenNewFileEntry (demo_env\<lparr>OS_WIN := True\<rparr>) [CHR ''a'', CHR 0x5C, CHR ''b''] True 7 demo_writer))
   \<and> trace (snd (OpenNewFileEntry (demo_env\<lparr>OS_WIN := True\<rparr>) [CHR ''a'', CHR 0x5C, CHR ''b''] True 7 demo_writer))
       = [OpenEntry ''a/b/'' 7 True]"
proof -
  let ?env = "demo_env\<lparr>OS_WIN := True\<rparr>"
  let ?run = "OpenNewFileEntry ?env [CHR ''a'', CHR 0x5C, CHR ''b''] True 7 demo_writer"
  have r: "?run = (True, snd ?run)"
    by (simp add: OpenNewFileEntry_def Let_def demo_env_def)
  have "trace demo_writer = []" "OS_WIN ?env" "AsUTF8Unsafe ?env = (\<lambda>p. p)"
    by (simp_all add: demo_writer_def ZipWriter_def demo_env_def)
  with OpenNewFileEntry_normalizes_path[OF r] r show ?thesis
    by (simp add: kSeparators_def)
qed

text \<open>
  Claim C8. For a safe entry that the filter rejects (and that the reader opens and
  advances past), nothing is created or written; the skip is logged when logging is asked
  for, and the loop goes on with the next entry: the outcome of the extraction is the
  outcome of extracting the remaining entries.
\<close>

theorem rejected_entry_is_skipped:
  assumes "opens e" and "\<not> is_unsafe e" and "\<not> filter_cb env (file_path e)" and "advances e"
  shows "UnzipEntries env lg (e # rest) tr
           = UnzipEntries env lg rest (tr @ (if lg then [SkippedFileLogged (file_path e)] else []))"
  using assms by (simp add: UnzipEntry_def)

text \<open>Claim C8 at a rejected entry followed by an accepted file.\<close>

theorem rejected_entry_is_skipped_witness:
  "opens (demo_entry ''skip.txt'' False False)
   \<and> \<not> is_unsafe (demo_entry ''skip.txt'' False False)
   \<and> \<not> filter_cb demo_unzip_env (file_path (demo_entry ''skip.txt'' False False))
   \<and> advances (demo_entry ''skip.txt'' False False)
   \<and> UnzipEntries demo_unzip_env True
        (demo_entry ''skip.txt'' False False # [demo_entry ''b.txt'' False False]) []
      = (True, [SkippedFileLogged ''skip.txt'', WriterFactoryRun ''b.txt'',
                ExtractCurrentEntryRun ''b.txt'' True])"
proof -
  have h: "opens (demo_entry ''skip.txt'' False False)"
    "\<not> is_unsafe (demo_entry ''skip.txt'' False False)"
    "\<not> filter_cb demo_unzip_env (file_path (demo_entry ''skip.txt'' False False))"
    "advances (demo_entry ''skip.txt'' False False)"
    by (simp_all add: demo_entry_def demo_unzip_env_def)
  have "UnzipEntries demo_unzip_env True [demo_entry ''b.txt'' False False]
          ([] @ (if True then [SkippedFileLogged (file_path (demo_entry ''skip.txt'' False False))] else []))
      = (True, [SkippedFileLogged ''skip.txt'', WriterFactoryRun ''b.txt'',
                ExtractCurrentEntryRun ''b.txt'' True])"
    by (simp add: UnzipEntry_def Let_def demo_unzip_env_def demo_entry_def)
  with rejected_entry_is_skipped[OF h, of True "[demo_entry ''b.txt'' False False]" "[]"] h
  show ?thesis by simp
qed

text \<open>
  Claim C9. After a flush, whatever its outcome, the queue has lost exactly the paths
  that were handed to the FileAccessor, a prefix of the queue cut into batches of at most
  50. If the flush does not succeed, the last batch issued is the failing one: its paths
  are gone from the queue, and the paths after it are all still pending.
\<close>

theorem failing_batch_leaves_the_queue:
  assumes "FlushEntriesIfNeeded env force w = (r, w')"
  shows "\<exists>new n. trace w' = trace w @ new
     \<and> pending_entries w' = drop n (pending_entries w)
     \<and> concat (batch_calls new) = map (Append env (root_dir w)) (take n (pending_entries w))
     \<and> (\<forall>b \<in> set (batch_calls new). length b \<le> 50)
     \<and> (r \<noteq> Inr True \<longrightarrow>
          (\<exists>bs failing. batch_calls new = bs @ [map (Append env (root_dir w)) failing]
             \<and> failing \<noteq> []
             \<and> pending_entries w = take (n - length failing) (pending_entries w) @ failing @ pending_entries w'))"
proof -
  let ?p = "pending_entries w"
  let ?A = "Append env (root_dir w)"
  have run: "FlushEntries_loop env force w = (r, w')"
    using assms(1) by (simp add: FlushEntriesIfNeeded_loop)
  obtain new n where L:
    "w' = w\<lparr>pending_entries := drop n ?p, trace := trace w @ new\<rparr>"
    "concat (batch_calls new) = map ?A (take n ?p)"
    "n \<le> length ?p"
    "list_all (\<lambda>b. b \<noteq> [] \<and> length b \<le> kMaxPendingEntriesCount) (batch_calls new)"
    "r \<noteq> Inr True \<longrightarrow> batch_calls new \<noteq> []"
    using FlushEntries_loop_extends[OF run] by blast
  have 1: "trace w' = trace w @ new" "pending_entries w' = drop n ?p" using L(1) by simp_all
  have 2: "\<forall>b \<in> set (batch_calls new). length b \<le> 50"
    using L(4) by (auto simp: list_all_iff kMaxPendingEntriesCount_def)
  have 3: "\<exists>bs failing. batch_calls new = bs @ [map ?A failing] \<and> failing \<noteq> []
             \<and> ?p = take (n - length failing) ?p @ failing @ pending_entries w'"
    if "r \<noteq> Inr True"
  proof -
    have ne: "batch_calls new \<noteq> []" using L(5) that by simp
    define bs where "bs = butlast (batch_calls new)"
    define l where "l = last (batch_calls new)"
    have bc: "batch_calls new = bs @ [l]" using ne by (simp add: bs_def l_def)
    have lne: "l \<noteq> []" using L(4) bc by simp
    define k where "k = length l"
    have cc: "concat bs @ l = map ?A (take n ?p)" using L(2) bc by simp
    then have "length (concat bs) + k = n" using L(3) k_def
      by (metis length_append length_map length_take min.absorb2)
    then have lc: "length (concat bs) = n - k" "k \<le> n" by simp_all
    define failing where "failing = drop (n - k) (take n ?p)"
    have "l = drop (n - k) (concat bs @ l)" using lc(1) by simp
    then have l: "l = map ?A failing" using cc by (simp add: failing_def drop_map)
    have lf: "length failing = k" using l k_def by simp
    have fne: "failing \<noteq> []" using lne l by auto
    have "take n ?p = take (n - k) (take n ?p) @ failing"
      unfolding failing_def by (rule append_take_drop_id[symmetric])
    moreover have "take (n - k) (take n ?p) = take (n - k) ?p" by (simp add: min_def)
    ultimately have "take n ?p = take (n - k) ?p @ failing" by simp
    then have "?p = (take (n - k) ?p @ failing) @ drop n ?p"
      by (metis append_take_drop_id)
    then have "?p = take (n - length failing) ?p @ failing @ pending_entries w'"
      using lf 1(2) by simp
    then show ?thesis using bc l fne by blast
  qed
  show ?thesis using 1 L(2) 2 3 by blast
qed

text \<open>
  Claim C9 at a queue of 51 paths whose first path is missing: the flush fails in the
  first batch, whose 50 paths are gone, and the last path stays pending.
\<close>

theorem failing_batch_leaves_the_queue_witness:
  "fst (FlushEntriesIfNeeded demo_env False (demo_queue (''x'' # replicate 50 ''a''))) = Inr False
   \<and> pending_entries (snd (FlushEntriesIfNeeded demo_env False (demo_queue (''x'' # replicate 50 ''a'')))) = [''a'']
   \<and> (\<exists>new n bs failing.
         trace (snd (FlushEntriesIfNeeded demo_env False (demo_queue (''x'' # replicate 50 ''a''))))
           = trace (demo_queue (''x'' # replicate 50 ''a'')) @ new
       \<and> pending_entries (snd (FlushEntriesIfNeeded demo_env False (demo_queue (''x'' # replicate 50 ''a''))))
           = drop n (pending_entries (demo_queue (''x'' # replicate 50 ''a'')))
       \<and> batch_calls new = bs @ [map (Append demo_env (root_dir (demo_queue (''x'' # replicate 50 ''a'')))) failing]
       \<and> failing \<noteq> []
       \<and> pending_entries (demo_queue (''x'' # replicate 50 ''a''))
           = take (n - length failing) (pending_entries (demo_queue (''x'' # replicate 50 ''a''))) @ failing
             @ pending_entries (snd (FlushEntriesIfNeeded demo_env False (demo_queue (''x'' # replicate 50 ''a'')))))"
proof -
  let ?w = "demo_queue (''x'' # replicate 50 ''a'')"
  let ?run = "FlushEntriesIfNeeded demo_env False ?w"
  have r: "fst ?run = Inr False" by (simp add: queue_simps)
  have p: "pending_entries (snd ?run) = [''a'']" by (simp add: queue_simps)
  have ne: "fst ?run \<noteq> Inr True" using r by simp
  from failing_batch_leaves_the_queue[OF prod.collapse[symmetric], of demo_env False ?w] ne r p
  show ?thesis by blast
qed

text \<open>
  Claim C10. If among the calls of \<open>AddFileEntry\<close> there is a successful codec open-entry
  call, then the last call it issues is the close-entry call, whatever the outcome of
  streaming the content. And \<open>AddFileEntry\<close> returns success only if \<open>GetInfo\<close>, the
  opening of the entry, the streaming of the content and the closing of the entry all
  succeeded.
\<close>

theorem AddFileEntry_closes_opened_entry:
  assumes "AddFileEntry env path f w = (r, w')"
  shows "\<exists>new. trace w' = trace w @ new
     \<and> ((\<exists>s t. OpenEntry s t True \<in> set new) \<longrightarrow> (\<exists>c. new \<noteq> [] \<and> last new = CloseEntry c))
     \<and> (r \<longrightarrow> (\<exists>t w1 w2. info_last_modified f = Some t
            \<and> OpenNewFileEntry env path False t w = (True, w1)
            \<and> AddFileContent env path f w1 = (True, w2)
            \<and> CloseNewFileEntry env w2 = (True, w')))"
proof (cases "info_last_modified f")
  case None
  then have "w' = w" "\<not> r" using assms AddFileEntry_no_info[of f env path w] by simp_all
  then show ?thesis by (intro exI[of _ "[]"]) simp
next
  case (Some t)
  obtain o1 w1 where o: "OpenNewFileEntry env path False t w = (o1, w1)" by fastforce
  have e1: "extends w [OpenEntry (str_path env path False) t o1] w1"
    by (rule OpenNewFileEntry_extends[OF o])
  show ?thesis
  proof (cases o1)
    case False
    then have "w' = w1" "\<not> r"
      using assms AddFileEntry_not_opened[OF Some, of env path w w1] o by simp_all
    then show ?thesis using e1 False
      by (intro exI[of _ "[OpenEntry (str_path env path False) t o1]"]) (simp add: extends_def)
  next
    case True
    obtain s w2 where c: "AddFileContent env path f w1 = (s, w2)" by fastforce
    obtain cl w3 where cl: "CloseNewFileEntry env w2 = (cl, w3)" by fastforce
    obtain writes where wr: "extends w1 writes w2"
      using c AddFileContent_loop_extends unfolding AddFileContent_def by blast
    have "AddFileEntry env path f w = (s \<and> cl, w3)"
      using AddFileEntry_opened[OF Some _ c cl] o True by simp
    then have w3: "w3 = w'" "r = (s \<and> cl)" using assms by simp_all
    have e3: "extends w2 [CloseEntry cl] w'" using CloseNewFileEntry_extends[OF cl] w3 by simp
    let ?new = "[OpenEntry (str_path env path False) t o1] @ writes @ [CloseEntry cl]"
    have "extends w ?new w'"
      by (rule extends_trans[OF e1 extends_trans[OF wr e3]])
    then have "trace w' = trace w @ ?new" by (simp add: extends_def)
    moreover have "?new \<noteq> [] \<and> last ?new = CloseEntry cl" by simp
    moreover have "r \<longrightarrow> (\<exists>t w1 w2. info_last_modified f = Some t
            \<and> OpenNewFileEntry env path False t w = (True, w1)
            \<and> AddFileContent env path f w1 = (True, w2)
            \<and> CloseNewFileEntry env w2 = (True, w'))"
      using Some o True c cl w3 by auto
    ultimately show ?thesis by blast
  qed
qed

text \<open>Claim C10 at the file \<open>e\<close>, whose second read fails: the entry is closed all the same.\<close>

theorem AddFileEntry_closes_opened_entry_witness:
  "AddFileEntry demo_env ''e'' (demo_file ''/r/e'') demo_writer
     = (False, snd (AddFileEntry demo_env ''e'' (demo_file ''/r/e'') demo_writer))
   \<and> trace (snd (AddFileEntry demo_env ''e'' (demo_file ''/r/e'') demo_writer))
       = [OpenEntry ''e'' 5 True, WriteData 3 True, CloseEntry True]
   \<and> (\<exists>new. trace (snd (AddFileEntry demo_env ''e'' (demo_file ''/r/e'') demo_writer)) = trace demo_writer @ new
       \<and> (\<exists>c. new \<noteq> [] \<and> last new = CloseEntry c))"
proof -
  let ?run = "AddFileEntry demo_env ''e'' (demo_file ''/r/e'') demo_writer"
  have r: "?run = (False, snd ?run)" by (simp add: run_simps)
  have t: "trace (snd ?run) = [OpenEntry ''e'' 5 True, WriteData 3 True, CloseEntry True]"
    by (simp add: run_simps)
  have e: "trace demo_writer = []" by (simp add: demo_writer_def ZipWriter_def)
  obtain new where n: "trace (snd ?run) = trace demo_writer @ new"
    "(\<exists>s t. OpenEntry s t True \<in> set new) \<longrightarrow> (\<exists>c. new \<noteq> [] \<and> last new = CloseEntry c)"
    using AddFileEntry_closes_opened_entry[OF r] by blast
  have "new = [OpenEntry ''e'' 5 True, WriteData 3 True, CloseEntry True]" using n(1) t e by simp
  then have "OpenEntry ''e'' 5 True \<in> set new" by simp
  then have "\<exists>c. new \<noteq> [] \<and> last new = CloseEntry c" using n(2) by blast
  then show ?thesis using r t n(1) by blast
qed

end
